theory Spec2Isabelle
  imports Main "HOL-Library.Word"
begin

unbundle bit_operations_syntax

section \<open>The hash table of src/hashtable/ht.c\<close>

text \<open>
  The table is an open-addressing hash table with linear probing. Keys are C strings,
  values are untyped pointers. The embedding follows ht.c function by function.

  \<^item> \<open>size_t\<close> and \<open>uint64_t\<close> are 64-bit words (the FNV constants are written with the
    suffix \<open>UL\<close>, so \<open>unsigned long\<close> has 64 bits); \<open>+\<close>, \<open>-\<close> and \<open>*\<close> wrap around.
  \<^item> A \<open>void *\<close> is a 64-bit word, \<open>NULL\<close> being 0.
  \<^item> A \<open>const char *\<close> is a \<open>string option\<close>: \<open>None\<close> is the null pointer, \<open>Some k\<close> points
    to the bytes \<open>k\<close> that precede the terminating NUL. \<open>strcmp(a, b) == 0\<close> is equality of
    these byte sequences.
  \<^item> The entry array is a list; reading it at an index outside the list is undefined
    behaviour in C and the outcome \<open>BadIndex\<close> here.
  \<^item> \<open>malloc\<close>, \<open>calloc\<close> and \<open>strdup\<close> may fail: whether each succeeds is a Boolean
    argument of the operation that calls it.
  \<^item> \<open>assert\<close> is active unless the file is built with \<open>NDEBUG\<close>: the argument \<open>debug\<close> of
    \<open>ht_set\<close> says whether assertions are compiled in; a failed assertion is the outcome
    \<open>AssertFail\<close>.
  \<^item> The two probing loops have no bound of their own. Each takes a fuel argument, the
    number of times its loop condition may be evaluated; running out is \<open>OutOfFuel\<close>.
    The loops of \<open>ht_expand\<close> and \<open>ht_next\<close> count an index up to the capacity and
    are total functions.

  \<open>ht_destroy\<close> only frees memory and \<open>main\<close> is empty; neither is modelled. The
  binary tree of src/bst_c is outside the specification.
\<close>

type_synonym size_t = "64 word"
type_synonym uint64_t = "64 word"
type_synonym ptr = "64 word"

definition NULL :: ptr where
  "NULL = 0"

datatype 'a exec = Done 'a | OutOfFuel | BadIndex | AssertFail

record ht_entry =
  entry_key :: "string option"
  entry_value :: ptr

record ht =
  entries :: "ht_entry list"
  capacity :: size_t
  length_ht :: size_t

record hti =
  it_key :: "string option"
  it_value :: ptr
  it_table :: "ht option"
  it_index :: size_t

definition FNV_OFFSET :: uint64_t where
  "FNV_OFFSET = 14695981039346656037"

definition FNV_PRIME :: uint64_t where
  "FNV_PRIME = 1099511628211"

definition INITIAL_CAPACITY :: size_t where
  "INITIAL_CAPACITY = 16"

subsection \<open>hash_key\<close>

fun hash_loop :: "uint64_t \<Rightarrow> string \<Rightarrow> uint64_t" where
  "hash_loop hash [] = hash"
| "hash_loop hash (p # ps) = hash_loop ((hash XOR of_char p) * FNV_PRIME) ps"

definition hash_key :: "string \<Rightarrow> uint64_t" where
  "hash_key k = hash_loop FNV_OFFSET k"

subsection \<open>ht_create\<close>

definition empty_entry :: ht_entry where
  "empty_entry = \<lparr>entry_key = None, entry_value = NULL\<rparr>"

definition calloc_entries :: "size_t \<Rightarrow> ht_entry list" where
  "calloc_entries n = replicate (unat n) empty_entry"

definition ht_create :: "bool \<Rightarrow> bool \<Rightarrow> ht option" where
  "ht_create malloc_ok calloc_ok =
     (if \<not> malloc_ok then None
      else if \<not> calloc_ok then None
      else Some \<lparr>entries = calloc_entries INITIAL_CAPACITY,
                 capacity = INITIAL_CAPACITY, length_ht = 0\<rparr>)"

subsection \<open>ht_get\<close>

fun ht_get_loop :: "nat \<Rightarrow> ht \<Rightarrow> string \<Rightarrow> size_t \<Rightarrow> ptr exec" where
  "ht_get_loop fuel table k index =
     (if fuel = 0 then OutOfFuel
      else if length (entries table) \<le> unat index then BadIndex
      else case entry_key (entries table ! unat index) of
        None \<Rightarrow> Done NULL
      | Some k' \<Rightarrow>
          if k = k' then Done (entry_value (entries table ! unat index))
          else ht_get_loop (fuel - 1) table k
                 (if index + 1 \<ge> capacity table then 0 else index + 1))"

declare ht_get_loop.simps [simp del]

definition ht_get :: "nat \<Rightarrow> ht option \<Rightarrow> string option \<Rightarrow> ptr exec" where
  "ht_get fuel table key =
     (case table of
        None \<Rightarrow> Done NULL
      | Some t \<Rightarrow>
         (case key of
            None \<Rightarrow> Done NULL
          | Some k \<Rightarrow> ht_get_loop fuel t k (hash_key k AND (capacity t - 1))))"

subsection \<open>ht_set_entry\<close>

text \<open>
  \<open>ht_set_entry\<close> writes into the array it is given and, through \<open>plength\<close>, into the
  table's length. The model returns the stored key, the array and the length cell
  (\<open>None\<close> for a null \<open>plength\<close>) as they are on return.
\<close>

type_synonym set_entry_result = "string option \<times> ht_entry list \<times> size_t option"

definition ht_set_entry_insert ::
  "bool \<Rightarrow> ht_entry list \<Rightarrow> string \<Rightarrow> ptr \<Rightarrow> size_t option \<Rightarrow> size_t \<Rightarrow> set_entry_result" where
  "ht_set_entry_insert strdup_ok es k v plength index =
     (case plength of
        Some len \<Rightarrow>
          if \<not> strdup_ok then (None, es, plength)
          else (Some k, es[unat index := \<lparr>entry_key = Some k, entry_value = v\<rparr>], Some (len + 1))
      | None \<Rightarrow> (Some k, es[unat index := \<lparr>entry_key = Some k, entry_value = v\<rparr>], None))"

fun ht_set_entry_loop ::
  "nat \<Rightarrow> bool \<Rightarrow> ht_entry list \<Rightarrow> size_t \<Rightarrow> string \<Rightarrow> ptr \<Rightarrow> size_t option \<Rightarrow> size_t
     \<Rightarrow> set_entry_result exec" where
  "ht_set_entry_loop fuel strdup_ok es cap k v plength index =
     (if fuel = 0 then OutOfFuel
      else if length es \<le> unat index then BadIndex
      else case entry_key (es ! unat index) of
        None \<Rightarrow> Done (ht_set_entry_insert strdup_ok es k v plength index)
      | Some k' \<Rightarrow>
          if k = k'
          then Done (Some k', es[unat index := (es ! unat index)\<lparr>entry_value := v\<rparr>], plength)
          else ht_set_entry_loop (fuel - 1) strdup_ok es cap k v plength
                 (if index + 1 \<ge> cap then 0 else index + 1))"

declare ht_set_entry_loop.simps [simp del]

definition ht_set_entry ::
  "nat \<Rightarrow> bool \<Rightarrow> ht_entry list \<Rightarrow> size_t \<Rightarrow> string \<Rightarrow> ptr \<Rightarrow> size_t option
     \<Rightarrow> set_entry_result exec" where
  "ht_set_entry fuel strdup_ok es cap k v plength =
     ht_set_entry_loop fuel strdup_ok es cap k v plength (hash_key k AND (cap - 1))"

subsection \<open>ht_expand\<close>

function ht_expand_loop ::
  "nat \<Rightarrow> ht \<Rightarrow> ht_entry list \<Rightarrow> size_t \<Rightarrow> size_t \<Rightarrow> ht_entry list exec" where
  "ht_expand_loop fuel table new_entries new_capacity i =
     (if i < capacity table then
        (if length (entries table) \<le> unat i then BadIndex
         else case entry_key (entries table ! unat i) of
           None \<Rightarrow> ht_expand_loop fuel table new_entries new_capacity (i + 1)
         | Some k \<Rightarrow>
            (case ht_set_entry fuel True new_entries new_capacity k
                    (entry_value (entries table ! unat i)) None of
               Done (_, new_entries', _) \<Rightarrow>
                 ht_expand_loop fuel table new_entries' new_capacity (i + 1)
             | OutOfFuel \<Rightarrow> OutOfFuel
             | BadIndex \<Rightarrow> BadIndex
             | AssertFail \<Rightarrow> AssertFail))
      else Done new_entries)"
  by pat_completeness auto
termination
proof -
  have step: "unat c - unat (i + 1) < unat c - unat i" if "i < c" for i c :: size_t
    using that unsigned_less [of c, where 'a = nat]
    by (simp add: word_less_nat_alt unat_word_ariths)
  show ?thesis
    by (relation "measure (\<lambda>(fuel, table, new_entries, new_capacity, i).
                    unat (capacity table) - unat i)")
       (auto simp: step)
qed

declare ht_expand_loop.simps [simp del]

definition ht_expand :: "nat \<Rightarrow> bool \<Rightarrow> ht \<Rightarrow> (bool \<times> ht) exec" where
  "ht_expand fuel calloc_ok table =
     (let new_capacity = capacity table * 2 in
      if new_capacity < capacity table then Done (False, table)
      else if \<not> calloc_ok then Done (False, table)
      else case ht_expand_loop fuel table (calloc_entries new_capacity) new_capacity 0 of
             Done new_entries \<Rightarrow>
               Done (True, table\<lparr>entries := new_entries, capacity := new_capacity\<rparr>)
           | OutOfFuel \<Rightarrow> OutOfFuel
           | BadIndex \<Rightarrow> BadIndex
           | AssertFail \<Rightarrow> AssertFail)"

subsection \<open>ht_set\<close>

definition ht_set_insert :: "nat \<Rightarrow> bool \<Rightarrow> ht \<Rightarrow> string \<Rightarrow> ptr \<Rightarrow> (string option \<times> ht option) exec" where
  "ht_set_insert fuel strdup_ok t k v =
     (case ht_set_entry fuel strdup_ok (entries t) (capacity t) k v (Some (length_ht t)) of
        Done (r, es, plength) \<Rightarrow>
          Done (r, Some (t\<lparr>entries := es,
                           length_ht := (case plength of Some l \<Rightarrow> l | None \<Rightarrow> length_ht t)\<rparr>))
      | OutOfFuel \<Rightarrow> OutOfFuel
      | BadIndex \<Rightarrow> BadIndex
      | AssertFail \<Rightarrow> AssertFail)"

definition ht_set ::
  "nat \<Rightarrow> bool \<Rightarrow> bool \<Rightarrow> bool \<Rightarrow> ht option \<Rightarrow> string option \<Rightarrow> ptr
     \<Rightarrow> (string option \<times> ht option) exec" where
  "ht_set fuel debug calloc_ok strdup_ok table key v =
     (if debug \<and> v = NULL then AssertFail
      else case table of
        None \<Rightarrow> Done (None, table)
      | Some t \<Rightarrow>
         (case key of
            None \<Rightarrow> Done (None, table)
          | Some k \<Rightarrow>
              if v = NULL then Done (None, table)
              else if length_ht t \<ge> capacity t div 2 then
                (case ht_expand fuel calloc_ok t of
                   Done (ok, t') \<Rightarrow>
                     if \<not> ok then Done (None, Some t')
                     else ht_set_insert fuel strdup_ok t' k v
                 | OutOfFuel \<Rightarrow> OutOfFuel
                 | BadIndex \<Rightarrow> BadIndex
                 | AssertFail \<Rightarrow> AssertFail)
              else ht_set_insert fuel strdup_ok t k v))"

subsection \<open>ht_length\<close>

definition ht_length :: "ht option \<Rightarrow> size_t" where
  "ht_length table = (case table of None \<Rightarrow> 0 | Some t \<Rightarrow> length_ht t)"

subsection \<open>ht_iterator and ht_next\<close>

text \<open>
  The cursor's \<open>_table\<close> pointer is modelled by the table it points to: the header
  forbids \<open>ht_set\<close> during an iteration, so the table a cursor sees does not change.
  \<open>ht_next\<close> writes through its argument; the model returns the cursor as it is on return.
\<close>

definition ht_iterator :: "ht option \<Rightarrow> hti" where
  "ht_iterator table = \<lparr>it_key = None, it_value = NULL, it_table = table, it_index = 0\<rparr>"

function ht_next_loop :: "hti \<Rightarrow> ht \<Rightarrow> (bool \<times> hti) exec" where
  "ht_next_loop it table =
     (if it_index it < capacity table then
        (let i = it_index it; it' = it\<lparr>it_index := it_index it + 1\<rparr> in
         if length (entries table) \<le> unat i then BadIndex
         else case entry_key (entries table ! unat i) of
           Some k \<Rightarrow>
             Done (True, it'\<lparr>it_key := Some k, it_value := entry_value (entries table ! unat i)\<rparr>)
         | None \<Rightarrow> ht_next_loop it' table)
      else Done (False, it\<lparr>it_key := None, it_value := NULL\<rparr>))"
  by pat_completeness auto
termination
proof -
  have step: "unat c - unat (i + 1) < unat c - unat i" if "i < c" for i c :: size_t
    using that unsigned_less [of c, where 'a = nat]
    by (simp add: word_less_nat_alt unat_word_ariths)
  show ?thesis
    by (relation "measure (\<lambda>(it, table). unat (capacity table) - unat (it_index it))")
       (auto simp: step)
qed

declare ht_next_loop.simps [simp del]

definition ht_next :: "hti option \<Rightarrow> (bool \<times> hti option) exec" where
  "ht_next it =
     (case it of
        None \<Rightarrow> Done (False, None)
      | Some c \<Rightarrow>
         (case it_table c of
            None \<Rightarrow> Done (False, Some c)
          | Some table \<Rightarrow>
             (case ht_next_loop c table of
                Done (b, c') \<Rightarrow> Done (b, Some c')
              | OutOfFuel \<Rightarrow> OutOfFuel
              | BadIndex \<Rightarrow> BadIndex
              | AssertFail \<Rightarrow> AssertFail)))"

subsection \<open>Iterating to completion\<close>

text \<open>
  The loop of the usage comment at the top of ht.c,
  \<^verbatim>\<open>hti it = ht_iterator(table); while (ht_next(&it)) { ... it.key, it.value ... }\<close>,
  collecting the key and value the cursor shows after each call that returns true.
\<close>

function ht_iterate :: "hti \<Rightarrow> (string option \<times> ptr) list exec" where
  "ht_iterate it =
     (case ht_next (Some it) of
        Done (found, Some it') \<Rightarrow>
          if found then
            (case ht_iterate it' of
               Done kvs \<Rightarrow> Done ((it_key it', it_value it') # kvs)
             | OutOfFuel \<Rightarrow> OutOfFuel
             | BadIndex \<Rightarrow> BadIndex
             | AssertFail \<Rightarrow> AssertFail)
          else Done []
      | Done (found, None) \<Rightarrow> Done []
      | OutOfFuel \<Rightarrow> OutOfFuel
      | BadIndex \<Rightarrow> BadIndex
      | AssertFail \<Rightarrow> AssertFail)"
  by pat_completeness auto
termination
proof -
  have adv: "it_table c' = it_table c \<and> unat (it_index c) < unat (it_index c') \<and>
             unat (it_index c') \<le> unat (capacity t)"
    if "ht_next_loop c t = Done (True, c')" for c t c'
    using that
  proof (induction c t rule: ht_next_loop.induct)
    case (1 it table)
    have lt: "it_index it < capacity table"
      using "1.prems" by (subst (asm) ht_next_loop.simps) (simp split: if_splits)
    then have s: "unat (it_index it + 1) = Suc (unat (it_index it))"
      using unsigned_less [of "capacity table", where 'a = nat]
      by (simp add: word_less_nat_alt unat_word_ariths)
    from lt have l: "unat (it_index it) < unat (capacity table)" by (simp add: word_less_nat_alt)
    have inr: "\<not> length (entries table) \<le> unat (it_index it)"
      using "1.prems" lt by (subst (asm) ht_next_loop.simps) (simp add: Let_def split: if_splits)
    show ?case
    proof (cases "entry_key (entries table ! unat (it_index it))")
      case None
      with "1.prems" lt inr
      have "ht_next_loop (it\<lparr>it_index := it_index it + 1\<rparr>) table = Done (True, c')"
        by (subst (asm) ht_next_loop.simps) (simp add: Let_def)
      from "1.IH" [OF lt refl refl inr None this] s show ?thesis by simp
    next
      case (Some k)
      with "1.prems" lt inr s l show ?thesis
        by (subst (asm) ht_next_loop.simps) (auto simp: Let_def)
    qed
  qed
  show ?thesis
  proof (relation "measure (\<lambda>it. case it_table it of None \<Rightarrow> 0
                      | Some t \<Rightarrow> unat (capacity t) - unat (it_index it))")
    fix it :: hti and x1 :: "bool \<times> hti option" and found :: bool and y :: "hti option"
      and it' :: hti
    assume a: "ht_next (Some it) = Done x1" "(found, y) = x1" "y = Some it'" "found"
    then obtain t where t: "it_table it = Some t" "ht_next_loop it t = Done (True, it')"
      by (auto simp: ht_next_def split: option.splits exec.splits)
    from adv [OF t(2)] t(1)
    show "(it', it) \<in> measure (\<lambda>it. case it_table it of None \<Rightarrow> 0
                      | Some t \<Rightarrow> unat (capacity t) - unat (it_index it))"
      by auto
  qed simp
qed

declare ht_iterate.simps [simp del]

section \<open>Specification predicates\<close>

subsection \<open>Linear probing\<close>

text \<open>
  \<open>occupied es\<close> is the set of slots of the array \<open>es\<close> that hold a key, and
  \<open>home n k\<close> the slot the key \<open>k\<close> hashes to in an array of \<open>n\<close> slots. A slot is
  \<open>busy\<close> for \<open>k\<close> when it holds a key other than \<open>k\<close>: the probe for \<open>k\<close> steps over
  it. \<open>walk es k h d\<close> says that the probe for \<open>k\<close> started at slot \<open>h\<close> steps over
  \<open>d\<close> slots in a row, wrapping at the end of the array. \<open>chain_ok\<close> is the invariant of
  linear probing: the probe for a stored key, started at its home slot, steps over every
  slot before the one that holds it. \<open>holds es k v\<close> says that some slot holds the key \<open>k\<close>
  with the value \<open>v\<close>.
\<close>

definition occupied :: "ht_entry list \<Rightarrow> nat set" where
  "occupied es = {i. i < length es \<and> entry_key (es ! i) \<noteq> None}"

definition home :: "nat \<Rightarrow> string \<Rightarrow> nat" where
  "home n k = unat (hash_key k) mod n"

definition busy :: "ht_entry list \<Rightarrow> string \<Rightarrow> nat \<Rightarrow> bool" where
  "busy es k i \<longleftrightarrow> (\<exists>k'. entry_key (es ! i) = Some k' \<and> k' \<noteq> k)"

definition walk :: "ht_entry list \<Rightarrow> string \<Rightarrow> nat \<Rightarrow> nat \<Rightarrow> bool" where
  "walk es k h d \<longleftrightarrow> (\<forall>d'<d. busy es k ((h + d') mod length es))"

definition chain_ok :: "ht_entry list \<Rightarrow> bool" where
  "chain_ok es \<longleftrightarrow>
     (\<forall>i<length es. \<forall>k. entry_key (es ! i) = Some k \<longrightarrow>
        walk es k (home (length es) k) ((i + length es - home (length es) k) mod length es))"

definition holds :: "ht_entry list \<Rightarrow> string \<Rightarrow> ptr \<Rightarrow> bool" where
  "holds es k v \<longleftrightarrow> (\<exists>i<length es. entry_key (es ! i) = Some k \<and> entry_value (es ! i) = v)"

text \<open>
  \<open>stores es k v es'\<close> describes a store of \<open>v\<close> under \<open>k\<close> into the array: the
  array keeps its size and the invariant, \<open>k\<close> is held with \<open>v\<close> only, every other key is
  held as before, and one more slot is occupied exactly when \<open>k\<close> was not held.
\<close>

definition stores :: "ht_entry list \<Rightarrow> string \<Rightarrow> ptr \<Rightarrow> ht_entry list \<Rightarrow> bool" where
  "stores es k v es' \<longleftrightarrow>
     length es' = length es \<and> chain_ok es' \<and>
     (\<forall>k2 v2. holds es' k2 v2 \<longleftrightarrow> (if k2 = k then v2 = v else holds es k2 v2)) \<and>
     card (occupied es') = (if \<exists>v0. holds es k v0 then card (occupied es)
                            else Suc (card (occupied es)))"

subsection \<open>Tables\<close>

text \<open>
  The invariant of a table: the array has \<open>capacity\<close> slots, the capacity is a power of
  two and at least 16, \<open>length\<close> counts the occupied slots, at most half of the slots are
  occupied, and the array satisfies the probing invariant.
\<close>

definition ht_inv :: "ht \<Rightarrow> bool" where
  "ht_inv t \<longleftrightarrow>
     length (entries t) = unat (capacity t) \<and>
     (\<exists>j\<ge>4. unat (capacity t) = 2 ^ j) \<and>
     unat (length_ht t) = card (occupied (entries t)) \<and>
     2 * card (occupied (entries t)) \<le> unat (capacity t) \<and>
     chain_ok (entries t)"

text \<open>
  What \<open>ht_set\<close> does to a table when it succeeds (\<open>set_effect\<close>) and when it fails
  (\<open>same_content\<close>), in terms of the pairs held and of the length; \<open>resized\<close> says when
  the capacity is doubled.
\<close>

definition set_effect :: "ht \<Rightarrow> string \<Rightarrow> ptr \<Rightarrow> ht \<Rightarrow> bool" where
  "set_effect t k v t' \<longleftrightarrow>
     (\<forall>k2 v2. holds (entries t') k2 v2 \<longleftrightarrow>
        (if k2 = k then v2 = v else holds (entries t) k2 v2)) \<and>
     length_ht t' = (if \<exists>v0. holds (entries t) k v0 then length_ht t else length_ht t + 1)"

definition same_content :: "ht \<Rightarrow> ht \<Rightarrow> bool" where
  "same_content t t' \<longleftrightarrow>
     (\<forall>k v. holds (entries t') k v \<longleftrightarrow> holds (entries t) k v) \<and> length_ht t' = length_ht t"

definition resized :: "ht \<Rightarrow> ht \<Rightarrow> bool" where
  "resized t t' \<longleftrightarrow>
     (if capacity t div 2 \<le> length_ht t then unat (capacity t') = 2 * unat (capacity t)
      else capacity t' = capacity t)"

text \<open>
  The tables a client can reach through the interface: \<open>built ops t\<close> says that \<open>t\<close> is
  the table made by \<open>ht_create\<close> followed by calls of \<open>ht_set\<close>, of which \<open>ops\<close> lists,
  in the order they were made, the keys and values of those that succeeded. A call that
  fails adds nothing to \<open>ops\<close>, but it may have grown the table. \<open>ht_get\<close>,
  \<open>ht_length\<close>, \<open>ht_iterator\<close> and \<open>ht_next\<close> do not write to the table. Each call is
  given fuel of at least the capacity, with which it does not run out (this is proved
  below, with the claim on termination), so every call the C code can make is one of
  these. The answers of the allocator are arbitrary.
\<close>

inductive built :: "(string \<times> ptr) list \<Rightarrow> ht \<Rightarrow> bool" where
  built_create: "ht_create malloc_ok calloc_ok = Some t \<Longrightarrow> built [] t"
| built_set:
    "built ops t \<Longrightarrow> unat (capacity t) \<le> fuel \<Longrightarrow>
     ht_set fuel debug calloc_ok strdup_ok (Some t) (Some k) v = Done (Some k', Some t') \<Longrightarrow>
     built (ops @ [(k, v)]) t'"
| built_fail:
    "built ops t \<Longrightarrow> unat (capacity t) \<le> fuel \<Longrightarrow>
     ht_set fuel debug calloc_ok strdup_ok (Some t) key v = Done (None, Some t') \<Longrightarrow>
     built ops t'"

subsection \<open>Counting the turns of the loops of growth\<close>







subsection \<open>Example tables\<close>

text \<open>
  The scenarios of the specification: a fresh table, the same after \<open>set("a", 1)\<close> and
  after a further \<open>set("a", 2)\<close>, after setting \<open>"a"\<close>, \<open>"b"\<close>, \<open>"c"\<close>, and after setting
  the eight keys \<open>"a"\<close> to \<open>"h"\<close>, which fills half of the sixteen slots; the latter
  grown to 32 slots, and after the ninth key \<open>"i"\<close>. \<open>collide8\<close> holds eight keys
  that all hash to slot 12, at capacity 16 and at capacity 32; \<open>table7\<close> is the table of
  the first seven keys and \<open>table8_h\<close> the table of eight keys after a further
  \<open>set("h", 100)\<close>, which grows it. The slot of each key is its hash
  modulo the capacity; the arrays are written as the updates of an empty array, in the
  order in which the code makes them. \<open>ht_set_all\<close> makes the calls of a scenario in a row.
\<close>

fun ht_set_all :: "ht \<Rightarrow> (string \<times> ptr) list \<Rightarrow> ht option" where
  "ht_set_all t [] = Some t"
| "ht_set_all t ((k, v) # kvs) =
     (case ht_set (unat (capacity t)) True True True (Some t) (Some k) v of
        Done (Some _, Some t') \<Rightarrow> ht_set_all t' kvs
      | _ \<Rightarrow> None)"

definition table0 :: ht where
  "table0 = \<lparr>entries = calloc_entries INITIAL_CAPACITY, capacity = INITIAL_CAPACITY,
             length_ht = 0\<rparr>"

definition table_a :: ht where
  "table_a = \<lparr>entries = (calloc_entries 16)[12 := \<lparr>entry_key = Some ''a'', entry_value = 1\<rparr>],
              capacity = 16, length_ht = 1\<rparr>"


definition table_abc :: ht where
  "table_abc = \<lparr>entries = (calloc_entries 16)
                  [12 := \<lparr>entry_key = Some ''a'', entry_value = 1\<rparr>,
                   5 := \<lparr>entry_key = Some ''b'', entry_value = 2\<rparr>,
                   2 := \<lparr>entry_key = Some ''c'', entry_value = 3\<rparr>],
                capacity = 16, length_ht = 3\<rparr>"

definition table8 :: ht where
  "table8 = \<lparr>entries = (calloc_entries 16)
                  [12 := \<lparr>entry_key = Some ''a'', entry_value = 1\<rparr>,
                   5 := \<lparr>entry_key = Some ''b'', entry_value = 2\<rparr>,
                   2 := \<lparr>entry_key = Some ''c'', entry_value = 3\<rparr>,
                   3 := \<lparr>entry_key = Some ''d'', entry_value = 4\<rparr>,
                   0 := \<lparr>entry_key = Some ''e'', entry_value = 5\<rparr>,
                   9 := \<lparr>entry_key = Some ''f'', entry_value = 6\<rparr>,
                   6 := \<lparr>entry_key = Some ''g'', entry_value = 7\<rparr>,
                   7 := \<lparr>entry_key = Some ''h'', entry_value = 8\<rparr>],
              capacity = 16, length_ht = 8\<rparr>"

definition table8_grown :: ht where
  "table8_grown = \<lparr>entries = (calloc_entries 32)
                  [0 := \<lparr>entry_key = Some ''e'', entry_value = 5\<rparr>,
                   18 := \<lparr>entry_key = Some ''c'', entry_value = 3\<rparr>,
                   19 := \<lparr>entry_key = Some ''d'', entry_value = 4\<rparr>,
                   5 := \<lparr>entry_key = Some ''b'', entry_value = 2\<rparr>,
                   6 := \<lparr>entry_key = Some ''g'', entry_value = 7\<rparr>,
                   23 := \<lparr>entry_key = Some ''h'', entry_value = 8\<rparr>,
                   25 := \<lparr>entry_key = Some ''f'', entry_value = 6\<rparr>,
                   12 := \<lparr>entry_key = Some ''a'', entry_value = 1\<rparr>],
              capacity = 32, length_ht = 8\<rparr>"

definition table9 :: ht where
  "table9 = table8_grown\<lparr>entries := (entries table8_grown)
                  [4 := \<lparr>entry_key = Some ''i'', entry_value = 9\<rparr>], length_ht := 9\<rparr>"





subsection \<open>Iteration\<close>

text \<open>
  \<open>ht_next_again n c\<close> is the result of the call of \<open>ht_next\<close> that follows \<open>n\<close>
  earlier calls on the cursor \<open>c\<close>. \<open>entry_pairs\<close> lists the keys and values of the
  occupied slots of an array, in the order of the slots.
\<close>

fun ht_next_again :: "nat \<Rightarrow> hti \<Rightarrow> (bool \<times> hti option) exec" where
  "ht_next_again 0 c = ht_next (Some c)"
| "ht_next_again (Suc n) c =
     (case ht_next (Some c) of
        Done (found, Some c') \<Rightarrow> ht_next_again n c'
      | Done (found, None) \<Rightarrow> Done (found, None)
      | OutOfFuel \<Rightarrow> OutOfFuel
      | BadIndex \<Rightarrow> BadIndex
      | AssertFail \<Rightarrow> AssertFail)"

definition entry_pairs :: "ht_entry list \<Rightarrow> (string option \<times> ptr) list" where
  "entry_pairs es = map (\<lambda>e. (entry_key e, entry_value e)) (filter (\<lambda>e. entry_key e \<noteq> None) es)"

section \<open>Proofs\<close>

subsection \<open>Indices and distances\<close>

lemma unat_succ: "i < (c::size_t) \<Longrightarrow> unat (i + 1) = Suc (unat i)"
  using unsigned_less [of c, where 'a = nat]
  by (simp add: word_less_nat_alt unat_word_ariths)

lemma next_index:
  assumes "w < (cap::size_t)"
  shows "unat (if w + 1 \<ge> cap then 0 else w + 1) = (unat w + 1) mod unat cap"
proof -
  have s: "unat (w + 1) = Suc (unat w)" using assms by (rule unat_succ)
  have l: "unat w < unat cap" using assms by (simp add: word_less_nat_alt)
  show ?thesis
  proof (cases "w + 1 \<ge> cap")
    case True
    then have "unat cap \<le> Suc (unat w)" using s by (simp add: word_le_nat_alt)
    with l have "Suc (unat w) = unat cap" by simp
    with True show ?thesis by simp
  next
    case False
    then have "Suc (unat w) < unat cap" using s by (simp add: word_le_nat_alt)
    with False s show ?thesis by simp
  qed
qed

lemma walk_0 [simp]: "walk es k h 0"
  by (simp add: walk_def)

lemma walk_Suc:
  "walk es k h (Suc d) \<longleftrightarrow> busy es k (h mod length es) \<and> walk es k ((h + 1) mod length es) d"
proof -
  have "(\<forall>d'<Suc d. P d') \<longleftrightarrow> P 0 \<and> (\<forall>d'<d. P (Suc d'))" for P
    by (metis less_Suc_eq_0_disj Suc_less_eq zero_less_Suc)
  then show ?thesis
    by (simp add: walk_def mod_add_left_eq)
qed

lemma inj_shift:
  assumes "(h + a) mod n = (h + b) mod n" "a < n" "b < n"
  shows "a = (b::nat)"
proof -
  have *: "x = y" if "(h + x) mod n = (h + y) mod n" "x \<le> y" "y < n" for x y :: nat
  proof -
    from that have "(h + y) mod n = (h + x) mod n" "h + x \<le> h + y" by simp_all
    then have "n dvd (h + y) - (h + x)"
      by (simp only: mod_eq_dvd_iff_nat)
    then have "n dvd y - x" by simp
    moreover have "y - x < n" using that by simp
    ultimately have "y - x = 0"
      using nat_dvd_not_less by (cases "y - x = 0") auto
    with that show ?thesis by simp
  qed
  show ?thesis
  proof (cases "a \<le> b")
    case True
    with assms show ?thesis by (auto intro: *)
  next
    case False
    then have "b \<le> a" by simp
    with assms have "b = a" by (auto intro: * [of b a])
    then show ?thesis by simp
  qed
qed

lemma dist_back: "i < n \<Longrightarrow> h < n \<Longrightarrow> (h + (i + n - h) mod n) mod n = (i::nat)"
  by (metis add.commute add_lessD1 leI le_add_diff_inverse mod_add_right_eq
    mod_add_self1 mod_less order_less_imp_not_less)

lemma pow2_word:
  assumes "unat (cap::size_t) = 2 ^ j"
  shows "cap = 2 ^ j" "j < 64"
proof -
  have "cap = of_nat (unat cap)" by simp
  also have "\<dots> = 2 ^ j" unfolding assms by simp
  finally show "cap = 2 ^ j" .
  have "unat cap < 2 ^ 64" using unsigned_less [of cap, where 'a = nat] by simp
  with assms have "(2::nat) ^ j < 2 ^ 64" by simp
  then show "j < 64" by (rule power_less_imp_less_exp [rotated]) simp
qed

lemma home_index:
  assumes "unat (cap::size_t) = 2 ^ j"
  shows "unat (hash_key k AND (cap - 1)) = home (unat cap) k"
proof -
  have "hash_key k AND (cap - 1) = take_bit j (hash_key k)"
    using pow2_word(1) [OF assms] by (simp add: take_bit_eq_mask mask_eq_exp_minus_1)
  moreover have "unat (take_bit j (hash_key k)) = take_bit j (unat (hash_key k))"
    by (simp only: unsigned_take_bit_eq)
  moreover have "take_bit j (unat (hash_key k)) = unat (hash_key k) mod 2 ^ j"
    by (simp only: take_bit_eq_mod)
  ultimately show ?thesis
    using assms by (simp only: home_def)
qed

lemma home_less: "0 < n \<Longrightarrow> home n k < n"
  by (simp add: home_def)

subsection \<open>Where a probe stops\<close>

text \<open>
  With an empty slot in the array a probe stops within one round; it steps over
  occupied slots only, none of them twice; and under the invariant the probe for a
  stored key stops at the one slot that holds it.
\<close>

lemma find_stop:
  assumes "e < length es" "entry_key (es ! e) = None" "h < length es"
  shows "\<exists>d<length es. walk es k h d \<and> \<not> busy es k ((h + d) mod length es)"
proof -
  let ?n = "length es"
  let ?P = "\<lambda>d. \<not> busy es k ((h + d) mod ?n)"
  define d0 where "d0 = (e + ?n - h) mod ?n"
  have "(h + d0) mod ?n = e" unfolding d0_def using assms by (intro dist_back)
  then have P0: "?P d0" using assms by (simp add: busy_def)
  define d where "d = (LEAST d. ?P d)"
  have Pd: "?P d" unfolding d_def using P0 by (rule LeastI)
  have "d \<le> d0" unfolding d_def using P0 by (rule Least_le)
  moreover have "0 < ?n" using assms(1) by linarith
  then have "d0 < ?n" unfolding d0_def by (rule mod_less_divisor)
  ultimately have dn: "d < ?n" by simp
  have "walk es k h d"
    unfolding walk_def d_def using not_less_Least by blast
  with Pd dn show ?thesis by blast
qed

lemma walk_le_card:
  assumes "walk es k h d" "d \<le> length es"
  shows "d \<le> card (occupied es)"
proof (cases "d = 0")
  case True
  then show ?thesis by simp
next
  case False
  let ?n = "length es"
  let ?f = "\<lambda>d'. (h + d') mod ?n"
  from False assms(2) have n: "0 < ?n" by linarith
  have "inj_on ?f {..<d}"
    using assms(2) by (auto simp: inj_on_def dest!: inj_shift)
  then have "card (?f ` {..<d}) = d" by (simp add: card_image)
  moreover have "?f ` {..<d} \<subseteq> occupied es"
    using assms(1) n by (auto simp: walk_def busy_def occupied_def)
  moreover have "finite (occupied es)" by (simp add: occupied_def)
  ultimately show ?thesis by (metis card_mono)
qed

lemma probe_unique:
  assumes "walk es k h d1" "\<not> busy es k ((h + d1) mod length es)"
    and "walk es k h d2" "\<not> busy es k ((h + d2) mod length es)"
  shows "d1 = d2"
  using assms unfolding walk_def by (metis nat_neq_iff)

lemma chain_find:
  assumes "chain_ok es" "i < length es" "entry_key (es ! i) = Some k"
  shows "\<exists>d<length es. walk es k (home (length es) k) d \<and> (home (length es) k + d) mod length es = i"
proof -
  let ?n = "length es"
  let ?d = "(i + ?n - home ?n k) mod ?n"
  have n: "0 < ?n" using assms(2) by linarith
  have "walk es k (home ?n k) ?d" using assms by (simp add: chain_ok_def)
  moreover have "(home ?n k + ?d) mod ?n = i"
    using assms(2) home_less [OF n] by (intro dist_back)
  moreover have "?d < ?n" using n by (rule mod_less_divisor)
  ultimately show ?thesis by blast
qed

lemma key_unique:
  assumes "chain_ok es" "i < length es" "j < length es"
    and "entry_key (es ! i) = Some k" "entry_key (es ! j) = Some k"
  shows "i = j"
proof -
  let ?n = "length es"
  from chain_find [OF assms(1,2,4)] obtain d1 where
    d1: "walk es k (home ?n k) d1" "(home ?n k + d1) mod ?n = i" by blast
  from chain_find [OF assms(1,3,5)] obtain d2 where
    d2: "walk es k (home ?n k) d2" "(home ?n k + d2) mod ?n = j" by blast
  have nb: "\<not> busy es k i" "\<not> busy es k j" using assms(4,5) by (simp_all add: busy_def)
  have "d1 = d2"
    by (rule probe_unique [OF d1(1) _ d2(1)]) (simp_all add: d1(2) d2(2) nb)
  then show ?thesis using d1(2) d2(2) by simp
qed

subsection \<open>The probing loops\<close>

text \<open>
  Both loops follow the walk: over \<open>d\<close> busy slots they spend \<open>d\<close> units of fuel
  and arrive at the slot \<open>d\<close> places further on, where a slot that is not busy ends them.
\<close>

lemma get_loop_walk:
  assumes "length (entries t) = unat (capacity t)"
  shows "unat w < unat (capacity t) \<Longrightarrow> walk (entries t) k (unat w) d \<Longrightarrow> d \<le> fuel \<Longrightarrow>
         ht_get_loop fuel t k w =
         ht_get_loop (fuel - d) t k (of_nat ((unat w + d) mod unat (capacity t)))"
proof (induction d arbitrary: w fuel)
  case 0
  then show ?case by simp
next
  case (Suc d)
  let ?n = "unat (capacity t)"
  let ?w' = "if w + 1 \<ge> capacity t then 0 else w + 1"
  have wlt: "w < capacity t" using Suc.prems(1) by (simp add: word_less_nat_alt)
  have w': "unat ?w' = (unat w + 1) mod ?n" using wlt by (rule next_index)
  from Suc.prems(2) have b: "busy (entries t) k (unat w)"
    and wk: "walk (entries t) k ((unat w + 1) mod ?n) d"
    using Suc.prems(1) assms by (simp_all add: walk_Suc)
  have "ht_get_loop fuel t k w = ht_get_loop (fuel - 1) t k ?w'"
    using b Suc.prems(1,3) assms
    by (subst ht_get_loop.simps) (auto simp: busy_def)
  also have "\<dots> = ht_get_loop (fuel - 1 - d) t k (of_nat ((unat ?w' + d) mod ?n))"
    using Suc.prems(1,3) wk by (intro Suc.IH) (simp_all only: w', simp_all)
  also have "(unat ?w' + d) mod ?n = (unat w + Suc d) mod ?n"
    by (simp only: w') (simp add: mod_add_left_eq)
  finally show ?case by simp
qed

lemma set_loop_walk:
  assumes "length es = unat cap"
  shows "unat w < unat cap \<Longrightarrow> walk es k (unat w) d \<Longrightarrow> d \<le> fuel \<Longrightarrow>
         ht_set_entry_loop fuel sd es cap k v pl w =
         ht_set_entry_loop (fuel - d) sd es cap k v pl (of_nat ((unat w + d) mod unat cap))"
proof (induction d arbitrary: w fuel)
  case 0
  then show ?case by simp
next
  case (Suc d)
  let ?n = "unat cap"
  let ?w' = "if w + 1 \<ge> cap then 0 else w + 1"
  have wlt: "w < cap" using Suc.prems(1) by (simp add: word_less_nat_alt)
  have w': "unat ?w' = (unat w + 1) mod ?n" using wlt by (rule next_index)
  from Suc.prems(2) have b: "busy es k (unat w)"
    and wk: "walk es k ((unat w + 1) mod ?n) d"
    using Suc.prems(1) assms by (simp_all add: walk_Suc)
  have "ht_set_entry_loop fuel sd es cap k v pl w = ht_set_entry_loop (fuel - 1) sd es cap k v pl ?w'"
    using b Suc.prems(1,3) assms
    by (subst ht_set_entry_loop.simps) (auto simp: busy_def)
  also have "\<dots> = ht_set_entry_loop (fuel - 1 - d) sd es cap k v pl (of_nat ((unat ?w' + d) mod ?n))"
    using Suc.prems(1,3) wk by (intro Suc.IH) (simp_all only: w', simp_all)
  also have "(unat ?w' + d) mod ?n = (unat w + Suc d) mod ?n"
    by (simp only: w') (simp add: mod_add_left_eq)
  finally show ?case by simp
qed

lemma unat_of_nat_less:
  "s < unat (cap::size_t) \<Longrightarrow> unat (of_nat s :: size_t) = s"
  using unsigned_less [of cap, where 'a = nat] by (simp add: unat_of_nat)

lemma get_loop_stop:
  assumes "length (entries t) = unat (capacity t)" "unat w < unat (capacity t)"
    and "walk (entries t) k (unat w) d" "d < fuel"
    and "s = (unat w + d) mod unat (capacity t)" "\<not> busy (entries t) k s"
  shows "ht_get_loop fuel t k w =
         (case entry_key (entries t ! s) of
            None \<Rightarrow> Done NULL | Some k' \<Rightarrow> Done (entry_value (entries t ! s)))"
proof -
  have sl: "s < unat (capacity t)" using assms(2,5) by simp
  then have us: "unat (of_nat s :: size_t) = s" by (rule unat_of_nat_less)
  have "ht_get_loop fuel t k w = ht_get_loop (fuel - d) t k (of_nat s)"
    using assms by (simp add: get_loop_walk)
  also have "\<dots> = (case entry_key (entries t ! s) of
            None \<Rightarrow> Done NULL | Some k' \<Rightarrow> Done (entry_value (entries t ! s)))"
    using assms(1,4,6) sl
    by (subst ht_get_loop.simps) (auto simp: us busy_def split: option.splits)
  finally show ?thesis .
qed

lemma set_loop_stop:
  assumes "length es = unat cap" "unat w < unat cap"
    and "walk es k (unat w) d" "d < fuel"
    and "s = (unat w + d) mod unat cap" "\<not> busy es k s"
  shows "ht_set_entry_loop fuel sd es cap k v pl w =
         Done (case entry_key (es ! s) of
            None \<Rightarrow> ht_set_entry_insert sd es k v pl (of_nat s)
          | Some k' \<Rightarrow> (Some k, es[s := (es ! s)\<lparr>entry_value := v\<rparr>], pl))"
proof -
  have sl: "s < unat cap" using assms(2,5) by simp
  then have us: "unat (of_nat s :: size_t) = s" by (rule unat_of_nat_less)
  have "ht_set_entry_loop fuel sd es cap k v pl w = ht_set_entry_loop (fuel - d) sd es cap k v pl (of_nat s)"
    using assms by (simp add: set_loop_walk)
  also have "\<dots> = Done (case entry_key (es ! s) of
            None \<Rightarrow> ht_set_entry_insert sd es k v pl (of_nat s)
          | Some k' \<Rightarrow> (Some k, es[s := (es ! s)\<lparr>entry_value := v\<rparr>], pl))"
    using assms(1,4,6) sl
    by (subst ht_set_entry_loop.simps) (auto simp: us busy_def split: option.splits)
  finally show ?thesis .
qed

subsection \<open>Writing a slot\<close>

text \<open>
  Overwriting the value of a stored key, and putting a new key into the empty slot
  where its probe stopped, keep the invariant.
\<close>

lemma busy_update_value:
  "i < length es \<Longrightarrow> busy (es[i := (es ! i)\<lparr>entry_value := v\<rparr>]) k s = busy es k s"
  by (cases "s = i") (simp_all add: busy_def)

lemma walk_update_value:
  "i < length es \<Longrightarrow> walk (es[i := (es ! i)\<lparr>entry_value := v\<rparr>]) k h d = walk es k h d"
  by (simp add: walk_def busy_update_value)

lemma key_update_value:
  "i < length es \<Longrightarrow> s < length es \<Longrightarrow>
   entry_key (es[i := (es ! i)\<lparr>entry_value := v\<rparr>] ! s) = entry_key (es ! s)"
  by (cases "s = i") simp_all

lemma chain_update_value:
  assumes "chain_ok es" "i < length es"
  shows "chain_ok (es[i := (es ! i)\<lparr>entry_value := v\<rparr>])"
  using assms by (simp add: chain_ok_def walk_update_value key_update_value)

lemma occupied_update_value:
  "i < length es \<Longrightarrow> occupied (es[i := (es ! i)\<lparr>entry_value := v\<rparr>]) = occupied es"
  by (auto simp: occupied_def key_update_value)

lemma holds_update_value:
  assumes "chain_ok es" "i < length es" "entry_key (es ! i) = Some k"
  shows "holds (es[i := (es ! i)\<lparr>entry_value := v\<rparr>]) k2 v2 \<longleftrightarrow>
         (if k2 = k then v2 = v else holds es k2 v2)"
proof (cases "k2 = k")
  case True
  have "holds (es[i := (es ! i)\<lparr>entry_value := v\<rparr>]) k v2 \<longleftrightarrow> v2 = v"
  proof
    assume "holds (es[i := (es ! i)\<lparr>entry_value := v\<rparr>]) k v2"
    then obtain s where s: "s < length es"
      "entry_key (es[i := (es ! i)\<lparr>entry_value := v\<rparr>] ! s) = Some k"
      "entry_value (es[i := (es ! i)\<lparr>entry_value := v\<rparr>] ! s) = v2"
      by (auto simp: holds_def)
    then have "entry_key (es ! s) = Some k" using assms(2) by (simp add: key_update_value)
    then have "s = i" using assms s(1) by (intro key_unique [of es s i k]) simp_all
    with s(3) assms(2) show "v2 = v" by simp
  next
    assume "v2 = v"
    then show "holds (es[i := (es ! i)\<lparr>entry_value := v\<rparr>]) k v2"
      using assms(2,3) unfolding holds_def by (intro exI [of _ i]) simp
  qed
  with True show ?thesis by simp
next
  case False
  have "holds (es[i := (es ! i)\<lparr>entry_value := v\<rparr>]) k2 v2 \<longleftrightarrow> holds es k2 v2"
    unfolding holds_def
  proof (intro iffI; elim exE conjE)
    fix s assume s: "s < length (es[i := (es ! i)\<lparr>entry_value := v\<rparr>])"
      "entry_key (es[i := (es ! i)\<lparr>entry_value := v\<rparr>] ! s) = Some k2"
      "entry_value (es[i := (es ! i)\<lparr>entry_value := v\<rparr>] ! s) = v2"
    then have "s \<noteq> i" using False assms(2,3) by auto
    with s show "\<exists>i<length es. entry_key (es ! i) = Some k2 \<and> entry_value (es ! i) = v2"
      by (intro exI [of _ s]) simp
  next
    fix s assume s: "s < length es" "entry_key (es ! s) = Some k2" "entry_value (es ! s) = v2"
    then have "s \<noteq> i" using False assms(3) by auto
    with s show "\<exists>s<length (es[i := (es ! i)\<lparr>entry_value := v\<rparr>]).
        entry_key (es[i := (es ! i)\<lparr>entry_value := v\<rparr>] ! s) = Some k2 \<and>
        entry_value (es[i := (es ! i)\<lparr>entry_value := v\<rparr>] ! s) = v2"
      by (intro exI [of _ s]) simp
  qed
  with False show ?thesis by simp
qed

lemma stores_update_value:
  assumes "chain_ok es" "i < length es" "entry_key (es ! i) = Some k"
  shows "stores es k v (es[i := (es ! i)\<lparr>entry_value := v\<rparr>])"
proof -
  have "holds es k (entry_value (es ! i))" using assms(2,3) by (auto simp: holds_def)
  then have "\<exists>v0. holds es k v0" ..
  then show ?thesis
    using assms
    by (simp add: stores_def chain_update_value occupied_update_value holds_update_value)
qed

lemma walk_insert:
  assumes "entry_key (es ! e) = None" "walk es k h d"
  shows "walk (es[e := x]) k h d"
  unfolding walk_def
proof (intro allI impI)
  fix d' assume "d' < d"
  with assms(2) have b: "busy es k ((h + d') mod length es)" by (simp add: walk_def)
  with assms(1) have "(h + d') mod length es \<noteq> e" by (auto simp: busy_def)
  with b show "busy (es[e := x]) k ((h + d') mod length (es[e := x]))"
    by (simp add: busy_def)
qed

lemma chain_insert:
  assumes "chain_ok es" "e < length es" "entry_key (es ! e) = None"
    and "walk es k (home (length es) k) d" "(home (length es) k + d) mod length es = e"
    and "d < length es"
  shows "chain_ok (es[e := \<lparr>entry_key = Some k, entry_value = v\<rparr>])"
  unfolding chain_ok_def
proof (intro allI impI)
  let ?n = "length es"
  let ?es' = "es[e := \<lparr>entry_key = Some k, entry_value = v\<rparr>]"
  fix i k'
  assume i: "i < length ?es'" and key: "entry_key (?es' ! i) = Some k'"
  have n: "0 < ?n" using assms(2) by linarith
  show "walk ?es' k' (home (length ?es') k') ((i + length ?es' - home (length ?es') k') mod length ?es')"
  proof (cases "i = e")
    case True
    with key assms(2) have k': "k' = k" by simp
    have "(home ?n k + (e + ?n - home ?n k) mod ?n) mod ?n = e"
      using assms(2) home_less [OF n] by (intro dist_back)
    with assms(5) have "(home ?n k + (e + ?n - home ?n k) mod ?n) mod ?n = (home ?n k + d) mod ?n"
      by simp
    then have "(e + ?n - home ?n k) mod ?n = d"
      using assms(6) n by (intro inj_shift [of "home ?n k" _ ?n d]) simp_all
    with True k' assms(3,4) show ?thesis by (simp add: walk_insert)
  next
    case False
    with key i have "entry_key (es ! i) = Some k'" by simp
    with assms(1) i have "walk es k' (home ?n k') ((i + ?n - home ?n k') mod ?n)"
      by (simp add: chain_ok_def)
    with assms(3) show ?thesis by (simp add: walk_insert)
  qed
qed

lemma finite_occupied [simp]: "finite (occupied es)"
  by (simp add: occupied_def)

lemma card_occupied_insert:
  assumes "e < length es" "entry_key (es ! e) = None"
  shows "card (occupied (es[e := \<lparr>entry_key = Some k, entry_value = v\<rparr>])) = Suc (card (occupied es))"
proof -
  have "occupied (es[e := \<lparr>entry_key = Some k, entry_value = v\<rparr>]) = insert e (occupied es)"
    using assms by (auto simp: occupied_def nth_list_update)
  moreover have "e \<notin> occupied es" using assms by (simp add: occupied_def)
  ultimately show ?thesis by simp
qed

lemma holds_insert:
  assumes "e < length es" "entry_key (es ! e) = None"
  shows "holds (es[e := \<lparr>entry_key = Some k, entry_value = v\<rparr>]) k2 v2 \<longleftrightarrow>
         (k2 = k \<and> v2 = v) \<or> holds es k2 v2"
proof
  assume "holds (es[e := \<lparr>entry_key = Some k, entry_value = v\<rparr>]) k2 v2"
  then obtain s where s: "s < length es"
    "entry_key (es[e := \<lparr>entry_key = Some k, entry_value = v\<rparr>] ! s) = Some k2"
    "entry_value (es[e := \<lparr>entry_key = Some k, entry_value = v\<rparr>] ! s) = v2"
    by (auto simp: holds_def)
  show "(k2 = k \<and> v2 = v) \<or> holds es k2 v2"
  proof (cases "s = e")
    case True
    with s assms show ?thesis by simp
  next
    case False
    with s have "holds es k2 v2" unfolding holds_def by (intro exI [of _ s]) simp
    then show ?thesis ..
  qed
next
  assume "(k2 = k \<and> v2 = v) \<or> holds es k2 v2"
  then show "holds (es[e := \<lparr>entry_key = Some k, entry_value = v\<rparr>]) k2 v2"
  proof
    assume "k2 = k \<and> v2 = v"
    with assms(1) show ?thesis unfolding holds_def by (intro exI [of _ e]) simp
  next
    assume "holds es k2 v2"
    then obtain s where s: "s < length es" "entry_key (es ! s) = Some k2"
      "entry_value (es ! s) = v2"
      by (auto simp: holds_def)
    with assms(2) have "s \<noteq> e" by auto
    with s show ?thesis unfolding holds_def by (intro exI [of _ s]) simp
  qed
qed

lemma stores_insert:
  assumes "chain_ok es" "e < length es" "entry_key (es ! e) = None"
    and "walk es k (home (length es) k) d" "(home (length es) k + d) mod length es = e"
    and "d < length es" "\<forall>v0. \<not> holds es k v0"
  shows "stores es k v (es[e := \<lparr>entry_key = Some k, entry_value = v\<rparr>])"
  unfolding stores_def
proof (intro conjI allI)
  show "chain_ok (es[e := \<lparr>entry_key = Some k, entry_value = v\<rparr>])"
    using assms(1-6) by (rule chain_insert)
  show "holds (es[e := \<lparr>entry_key = Some k, entry_value = v\<rparr>]) k2 v2 =
        (if k2 = k then v2 = v else holds es k2 v2)" for k2 v2
    using assms(2,3,7) by (auto simp: holds_insert)
  show "card (occupied (es[e := \<lparr>entry_key = Some k, entry_value = v\<rparr>])) =
        (if \<exists>v0. holds es k v0 then card (occupied es) else Suc (card (occupied es)))"
    using assms(2,3,7) by (simp add: card_occupied_insert)
qed simp

lemma exists_empty:
  assumes "card (occupied es) < length es"
  shows "\<exists>e<length es. entry_key (es ! e) = None"
proof (rule ccontr)
  assume "\<not> ?thesis"
  then have "occupied es = {..<length es}" by (auto simp: occupied_def)
  with assms show False by simp
qed

subsection \<open>ht_set_entry and ht_get\<close>

lemma set_entry_found:
  assumes "length es = unat cap" "unat cap = 2 ^ j" "chain_ok es"
    and "card (occupied es) < fuel" "i < length es" "entry_key (es ! i) = Some k"
  shows "ht_set_entry fuel sd es cap k v pl =
         Done (Some k, es[i := (es ! i)\<lparr>entry_value := v\<rparr>], pl)"
proof -
  let ?n = "length es"
  let ?w = "hash_key k AND (cap - 1)"
  from chain_find [OF assms(3,5,6)] obtain d where
    d: "d < ?n" "walk es k (home ?n k) d" "(home ?n k + d) mod ?n = i" by blast
  have "d \<le> card (occupied es)" using d(1,2) by (intro walk_le_card) simp_all
  with assms(4) have df: "d < fuel" by simp
  have w: "unat ?w = home ?n k" using assms(1,2) by (simp add: home_index)
  have wl: "unat ?w < unat cap" unfolding w using assms(1,2) by (simp add: home_def)
  have nb: "\<not> busy es k i" using assms(6) by (simp add: busy_def)
  have "ht_set_entry_loop fuel sd es cap k v pl ?w =
         Done (case entry_key (es ! i) of
            None \<Rightarrow> ht_set_entry_insert sd es k v pl (of_nat i)
          | Some k' \<Rightarrow> (Some k, es[i := (es ! i)\<lparr>entry_value := v\<rparr>], pl))"
    using assms(1) wl _ df _ nb
  proof (rule set_loop_stop)
    show "walk es k (unat ?w) d" using d(2) w by simp
    show "i = (unat ?w + d) mod unat cap" using d(3) w assms(1) by simp
  qed
  then show ?thesis using assms(6) by (simp add: ht_set_entry_def)
qed

lemma set_entry_new:
  assumes "length es = unat cap" "unat cap = 2 ^ j" "chain_ok es"
    and "card (occupied es) < fuel" "card (occupied es) < length es"
    and "\<forall>v0. \<not> holds es k v0"
  shows "\<exists>e d. e < length es \<and> entry_key (es ! e) = None \<and> d < length es \<and>
           walk es k (home (length es) k) d \<and> (home (length es) k + d) mod length es = e \<and>
           unat (of_nat e :: size_t) = e \<and>
           ht_set_entry fuel sd es cap k v pl =
             Done (ht_set_entry_insert sd es k v pl (of_nat e))"
proof -
  let ?n = "length es"
  let ?w = "hash_key k AND (cap - 1)"
  have w: "unat ?w = home ?n k" using assms(1,2) by (simp add: home_index)
  have wl: "unat ?w < unat cap" unfolding w using assms(1,2) by (simp add: home_def)
  from exists_empty [OF assms(5)] obtain e0 where
    e0: "e0 < ?n" "entry_key (es ! e0) = None" by blast
  have hl: "home ?n k < ?n" using wl w assms(1) by simp
  from find_stop [OF e0 hl, of k] obtain d where
    d: "d < ?n" "walk es k (home ?n k) d" "\<not> busy es k ((home ?n k + d) mod ?n)" by blast
  define e where "e = (home ?n k + d) mod ?n"
  have "0 < ?n" using e0(1) by linarith
  then have el: "e < ?n" unfolding e_def by (rule mod_less_divisor)
  have "entry_key (es ! e) \<noteq> Some k"
    using assms(6) el by (auto simp: holds_def)
  with d(3) have ek: "entry_key (es ! e) = None"
    unfolding e_def busy_def by (cases "entry_key (es ! ((home ?n k + d) mod ?n))") auto
  have "d \<le> card (occupied es)" using d(1,2) by (intro walk_le_card) simp_all
  with assms(4) have df: "d < fuel" by simp
  have ue: "unat (of_nat e :: size_t) = e"
    using el assms(1) by (intro unat_of_nat_less [of e cap]) simp
  have "ht_set_entry_loop fuel sd es cap k v pl ?w =
         Done (case entry_key (es ! e) of
            None \<Rightarrow> ht_set_entry_insert sd es k v pl (of_nat e)
          | Some k' \<Rightarrow> (Some k, es[e := (es ! e)\<lparr>entry_value := v\<rparr>], pl))"
    using assms(1) wl _ df
  proof (rule set_loop_stop)
    show "walk es k (unat ?w) d" using d(2) w by simp
    show "e = (unat ?w + d) mod unat cap" using w assms(1) by (simp add: e_def)
    show "\<not> busy es k e" using d(3) by (simp add: e_def)
  qed
  then have "ht_set_entry fuel sd es cap k v pl =
             Done (ht_set_entry_insert sd es k v pl (of_nat e))"
    using ek by (simp add: ht_set_entry_def)
  with el ek d(1,2) ue show ?thesis unfolding e_def by blast
qed

lemma set_entry_stores:
  assumes "length es = unat cap" "unat cap = 2 ^ j" "chain_ok es"
    and "card (occupied es) < fuel" "card (occupied es) < length es"
    and "pl = None \<or> sd"
  shows "\<exists>es'. ht_set_entry fuel sd es cap k v pl =
           Done (Some k, es',
                 map_option (\<lambda>l. if \<exists>v0. holds es k v0 then l else l + 1) pl) \<and>
           stores es k v es'"
proof (cases "\<exists>v0. holds es k v0")
  case True
  then obtain i where i: "i < length es" "entry_key (es ! i) = Some k"
    by (auto simp: holds_def)
  have "ht_set_entry fuel sd es cap k v pl =
         Done (Some k, es[i := (es ! i)\<lparr>entry_value := v\<rparr>], pl)"
    using assms(1-4) i by (rule set_entry_found)
  moreover have "stores es k v (es[i := (es ! i)\<lparr>entry_value := v\<rparr>])"
    using assms(3) i by (rule stores_update_value)
  ultimately show ?thesis using True by (cases pl) auto
next
  case False
  then have no: "\<forall>v0. \<not> holds es k v0" by simp
  from set_entry_new [OF assms(1-5) no, of sd v pl] obtain e d where
    e: "e < length es" "entry_key (es ! e) = None" "d < length es"
      "walk es k (home (length es) k) d" "(home (length es) k + d) mod length es = e"
      "unat (of_nat e :: size_t) = e"
      "ht_set_entry fuel sd es cap k v pl = Done (ht_set_entry_insert sd es k v pl (of_nat e))"
    by blast
  have "stores es k v (es[e := \<lparr>entry_key = Some k, entry_value = v\<rparr>])"
    using assms(3) e(1,2,4,5,3) no by (rule stores_insert)
  moreover have "ht_set_entry_insert sd es k v pl (of_nat e) =
      (Some k, es[e := \<lparr>entry_key = Some k, entry_value = v\<rparr>], map_option (\<lambda>l. l + 1) pl)"
    using assms(6) e(6) by (cases pl) (auto simp: ht_set_entry_insert_def)
  ultimately show ?thesis using False e(7) by auto
qed

lemma set_entry_strdup_fails:
  assumes "length es = unat cap" "unat cap = 2 ^ j" "chain_ok es"
    and "card (occupied es) < fuel" "card (occupied es) < length es"
    and "\<forall>v0. \<not> holds es k v0"
  shows "ht_set_entry fuel False es cap k v (Some l) = Done (None, es, Some l)"
proof -
  from set_entry_new [OF assms, of False v "Some l"] obtain e where
    "ht_set_entry fuel False es cap k v (Some l)
       = Done (ht_set_entry_insert False es k v (Some l) (of_nat e))"
    by blast
  then show ?thesis by (simp add: ht_set_entry_insert_def)
qed

lemma get_found:
  assumes "ht_inv t" "card (occupied (entries t)) < fuel" "holds (entries t) k v"
  shows "ht_get fuel (Some t) (Some k) = Done v"
proof -
  let ?es = "entries t"
  let ?n = "length ?es"
  let ?w = "hash_key k AND (capacity t - 1)"
  from assms(1) obtain j where j: "unat (capacity t) = 2 ^ j" and len: "?n = unat (capacity t)"
    and ch: "chain_ok ?es"
    by (auto simp: ht_inv_def)
  from assms(3) obtain i where i: "i < ?n" "entry_key (?es ! i) = Some k"
    "entry_value (?es ! i) = v"
    by (auto simp: holds_def)
  from chain_find [OF ch i(1,2)] obtain d where
    d: "d < ?n" "walk ?es k (home ?n k) d" "(home ?n k + d) mod ?n = i" by blast
  have "d \<le> card (occupied ?es)" using d(1,2) by (intro walk_le_card) simp_all
  with assms(2) have df: "d < fuel" by simp
  have w: "unat ?w = home ?n k" using len j by (simp add: home_index)
  have wl: "unat ?w < unat (capacity t)" unfolding w using len j by (simp add: home_def)
  have nb: "\<not> busy ?es k i" using i(2) by (simp add: busy_def)
  have "ht_get_loop fuel t k ?w =
         (case entry_key (?es ! i) of
            None \<Rightarrow> Done NULL | Some k' \<Rightarrow> Done (entry_value (?es ! i)))"
    using len wl _ df _ nb
  proof (rule get_loop_stop)
    show "walk ?es k (unat ?w) d" using d(2) w by simp
    show "i = (unat ?w + d) mod unat (capacity t)" using d(3) w len by simp
  qed
  then show ?thesis using i(2,3) by (simp add: ht_get_def)
qed


subsection \<open>ht_expand\<close>

text \<open>
  The loop invariant: after the slots below \<open>i\<close> of the old array, the new array
  holds exactly their pairs, in as many slots, and satisfies the probing invariant.
\<close>

lemma expand_loop_spec:
  assumes old: "length (entries t) = unat (capacity t)" "chain_ok (entries t)"
    and new: "unat ncap = 2 ^ j" "card (occupied (entries t)) < unat ncap"
      "card (occupied (entries t)) < fuel"
  shows "m = unat (capacity t) - unat i \<Longrightarrow> unat i \<le> unat (capacity t) \<Longrightarrow>
         length ne = unat ncap \<Longrightarrow> chain_ok ne \<Longrightarrow>
         (\<forall>k v. holds ne k v \<longleftrightarrow>
            (\<exists>s<unat i. entry_key (entries t ! s) = Some k \<and> entry_value (entries t ! s) = v)) \<Longrightarrow>
         card (occupied ne) = card {s. s < unat i \<and> entry_key (entries t ! s) \<noteq> None} \<Longrightarrow>
         \<exists>ne'. ht_expand_loop fuel t ne ncap i = Done ne' \<and> length ne' = unat ncap \<and>
               chain_ok ne' \<and> (\<forall>k v. holds ne' k v \<longleftrightarrow> holds (entries t) k v) \<and>
               card (occupied ne') = card (occupied (entries t))"
proof (induction m arbitrary: i ne)
  case 0
  let ?old = "entries t"
  from 0 have i: "unat i = unat (capacity t)" by simp
  then have "\<not> i < capacity t" by (simp add: word_less_nat_alt)
  then have "ht_expand_loop fuel t ne ncap i = Done ne"
    by (subst ht_expand_loop.simps) simp
  moreover have "\<forall>k v. holds ne k v \<longleftrightarrow> holds ?old k v"
    using 0(5) i old(1) by (simp add: holds_def)
  moreover have "{s. s < unat i \<and> entry_key (?old ! s) \<noteq> None} = occupied ?old"
    using i old(1) by (simp add: occupied_def)
  ultimately show ?case using 0(3,4,6) by simp
next
  case (Suc m)
  let ?old = "entries t"
  let ?u = "unat i"
  let ?pre = "\<lambda>b. {s. s < b \<and> entry_key (?old ! s) \<noteq> None}"
  from Suc.prems(1) have ilt: "?u < unat (capacity t)" by simp
  then have iw: "i < capacity t" by (simp add: word_less_nat_alt)
  then have ui: "unat (i + 1) = Suc ?u" by (rule unat_succ)
  have m': "m = unat (capacity t) - unat (i + 1)" using Suc.prems(1) ui by simp
  have le': "unat (i + 1) \<le> unat (capacity t)" using ilt ui by simp
  have sub: "?pre ?u \<subseteq> occupied ?old"
    using ilt old(1) by (auto simp: occupied_def)
  then have cle: "card (?pre ?u) \<le> card (occupied ?old)"
    by (intro card_mono) simp_all
  show ?case
  proof (cases "entry_key (?old ! ?u)")
    case None
    have step: "ht_expand_loop fuel t ne ncap i = ht_expand_loop fuel t ne ncap (i + 1)"
      using iw ilt old(1) None by (subst ht_expand_loop.simps) simp
    have h: "\<forall>k v. holds ne k v \<longleftrightarrow>
            (\<exists>s<unat (i + 1). entry_key (?old ! s) = Some k \<and> entry_value (?old ! s) = v)"
      unfolding ui using Suc.prems(5) None by (auto simp: less_Suc_eq)
    have "?pre (Suc ?u) = ?pre ?u" using None by (auto simp: less_Suc_eq)
    then have c: "card (occupied ne) = card (?pre (unat (i + 1)))"
      unfolding ui using Suc.prems(6) by simp
    from Suc.IH [OF m' le' Suc.prems(3,4) h c] step show ?thesis by simp
  next
    case (Some k)
    let ?v = "entry_value (?old ! ?u)"
    have fresh: "\<not> holds ne k v0" for v0
    proof
      assume "holds ne k v0"
      with Suc.prems(5) obtain s where s: "s < ?u" "entry_key (?old ! s) = Some k" by blast
      have "s = ?u" using old(2) _ _ s(2) Some
        by (rule key_unique) (use s(1) ilt old(1) in simp_all)
      with s(1) show False by simp
    qed
    have cf: "card (occupied ne) < fuel" and cl: "card (occupied ne) < length ne"
      using Suc.prems(3,6) cle new(2,3) by simp_all
    from set_entry_stores [OF Suc.prems(3) new(1) Suc.prems(4) cf cl, of None True k ?v]
    obtain es' where es': "ht_set_entry fuel True ne ncap k ?v None = Done (Some k, es', None)"
      "stores ne k ?v es'"
      by auto
    have step: "ht_expand_loop fuel t ne ncap i = ht_expand_loop fuel t es' ncap (i + 1)"
      using iw ilt old(1) Some es'(1) by (subst ht_expand_loop.simps) simp
    from es'(2) fresh have st: "length es' = length ne" "chain_ok es'"
      "\<And>k2 v2. holds es' k2 v2 \<longleftrightarrow> (if k2 = k then v2 = ?v else holds ne k2 v2)"
      "card (occupied es') = Suc (card (occupied ne))"
      by (simp_all add: stores_def)
    have h: "\<forall>k2 v2. holds es' k2 v2 \<longleftrightarrow>
            (\<exists>s<unat (i + 1). entry_key (?old ! s) = Some k2 \<and> entry_value (?old ! s) = v2)"
      unfolding ui
    proof (intro allI)
      fix k2 v2
      show "holds es' k2 v2 \<longleftrightarrow>
            (\<exists>s<Suc ?u. entry_key (?old ! s) = Some k2 \<and> entry_value (?old ! s) = v2)"
      proof (cases "k2 = k")
        case True
        have "(\<exists>s<Suc ?u. entry_key (?old ! s) = Some k \<and> entry_value (?old ! s) = v2)
              \<longleftrightarrow> v2 = ?v"
        proof
          assume "\<exists>s<Suc ?u. entry_key (?old ! s) = Some k \<and> entry_value (?old ! s) = v2"
          then obtain s where s: "s < Suc ?u" "entry_key (?old ! s) = Some k"
            "entry_value (?old ! s) = v2" by blast
          have "s = ?u" using old(2) _ _ s(2) Some
            by (rule key_unique) (use s(1) ilt old(1) in simp_all)
          with s(3) show "v2 = ?v" by simp
        next
          assume "v2 = ?v"
          with Some show "\<exists>s<Suc ?u. entry_key (?old ! s) = Some k \<and> entry_value (?old ! s) = v2"
            by (intro exI [of _ ?u]) simp
        qed
        with True st(3) show ?thesis by simp
      next
        case False
        with Some have "(\<exists>s<Suc ?u. entry_key (?old ! s) = Some k2 \<and> entry_value (?old ! s) = v2)
              \<longleftrightarrow> (\<exists>s<?u. entry_key (?old ! s) = Some k2 \<and> entry_value (?old ! s) = v2)"
          by (auto simp: less_Suc_eq)
        with False st(3) Suc.prems(5) show ?thesis by simp
      qed
    qed
    have "?pre (Suc ?u) = insert ?u (?pre ?u)" using Some by (auto simp: less_Suc_eq)
    moreover have "?u \<notin> ?pre ?u" by simp
    moreover have "finite (?pre ?u)" by simp
    ultimately have "card (?pre (Suc ?u)) = Suc (card (?pre ?u))" by simp
    then have c: "card (occupied es') = card (?pre (unat (i + 1)))"
      unfolding ui using st(4) Suc.prems(6) by simp
    have l: "length es' = unat ncap" using st(1) Suc.prems(3) by simp
    from Suc.IH [OF m' le' l st(2) h c] step show ?thesis by simp
  qed
qed

lemma chain_ok_calloc: "chain_ok (calloc_entries n)"
  by (simp add: chain_ok_def calloc_entries_def empty_entry_def)

lemma occupied_calloc: "occupied (calloc_entries n) = {}"
  by (simp add: occupied_def calloc_entries_def empty_entry_def)

lemma holds_calloc: "\<not> holds (calloc_entries n) k v"
  by (auto simp: holds_def calloc_entries_def empty_entry_def)

lemma length_calloc: "length (calloc_entries n) = unat n"
  by (simp add: calloc_entries_def)

lemma double_capacity:
  assumes "unat (cap::size_t) = 2 ^ j" "\<not> cap * 2 < cap"
  shows "unat (cap * 2) = 2 ^ Suc j"
proof -
  have j64: "j < 64" using assms(1) by (rule pow2_word(2))
  have c: "cap = 2 ^ j" using assms(1) by (rule pow2_word(1))
  have "j \<noteq> 63"
  proof
    assume "j = 63"
    then have "cap * 2 = 0" using c by simp
    moreover have "cap \<noteq> 0" using assms(1) by (metis unat_0 power_not_zero zero_neq_numeral)
    ultimately have "cap * 2 < cap" by (simp add: word_greater_zero_iff)
    with assms(2) show False by simp
  qed
  with j64 have "Suc j < 64" by simp
  then have "(2::nat) ^ Suc j < 2 ^ 64" by (intro power_strict_increasing) simp_all
  then have "unat cap * 2 < 2 ^ 64" using assms(1) by simp
  then have "unat (cap * 2) = unat cap * 2"
    by (simp add: unat_word_ariths)
  with assms(1) show ?thesis by simp
qed

lemma expand_spec:
  assumes "ht_inv t" "card (occupied (entries t)) < fuel" "\<not> capacity t * 2 < capacity t"
  shows "\<exists>t'. ht_expand fuel True t = Done (True, t') \<and> ht_inv t' \<and>
           unat (capacity t') = 2 * unat (capacity t) \<and> same_content t t' \<and>
           card (occupied (entries t')) = card (occupied (entries t))"
proof -
  let ?old = "entries t"
  let ?ncap = "capacity t * 2"
  from assms(1) obtain j where j: "4 \<le> j" "unat (capacity t) = 2 ^ j"
    and len: "length ?old = unat (capacity t)" and ch: "chain_ok ?old"
    and half: "2 * card (occupied ?old) \<le> unat (capacity t)"
    and cnt: "unat (length_ht t) = card (occupied ?old)"
    by (auto simp: ht_inv_def)
  have nc: "unat ?ncap = 2 ^ Suc j" using j(2) assms(3) by (rule double_capacity)
  have nc2: "unat ?ncap = 2 * unat (capacity t)" using nc j(2) by simp
  have pos: "0 < unat (capacity t)" using j(2) by simp
  have room: "card (occupied ?old) < unat ?ncap" using half nc2 pos by linarith
  have "\<exists>ne'. ht_expand_loop fuel t (calloc_entries ?ncap) ?ncap 0 = Done ne' \<and>
          length ne' = unat ?ncap \<and> chain_ok ne' \<and>
          (\<forall>k v. holds ne' k v \<longleftrightarrow> holds ?old k v) \<and>
          card (occupied ne') = card (occupied ?old)"
    using len ch nc room assms(2)
    by (rule expand_loop_spec [where m = "unat (capacity t) - unat (0::size_t)"])
       (simp_all add: chain_ok_calloc occupied_calloc holds_calloc length_calloc)
  then obtain ne' where ne': "ht_expand_loop fuel t (calloc_entries ?ncap) ?ncap 0 = Done ne'"
    "length ne' = unat ?ncap" "chain_ok ne'" "\<forall>k v. holds ne' k v \<longleftrightarrow> holds ?old k v"
    "card (occupied ne') = card (occupied ?old)"
    by blast
  let ?t' = "t\<lparr>entries := ne', capacity := ?ncap\<rparr>"
  have "ht_expand fuel True t = Done (True, ?t')"
    using assms(3) ne'(1) by (simp add: ht_expand_def Let_def)
  moreover have "ht_inv ?t'"
    unfolding ht_inv_def using ne'(2,3,5) nc j(1) cnt half j(2)
    by (auto intro!: exI [of _ "Suc j"])
  moreover have "unat (capacity ?t') = 2 * unat (capacity t)" using nc j(2) by simp
  moreover have "same_content t ?t'" using ne'(4) by (simp add: same_content_def)
  moreover have "card (occupied (entries ?t')) = card (occupied ?old)" using ne'(5) by simp
  ultimately show ?thesis by blast
qed

subsection \<open>ht_set\<close>

lemma set_insert_spec:
  assumes "length (entries t) = unat (capacity t)" "unat (capacity t) = 2 ^ j" "4 \<le> j"
    and "chain_ok (entries t)" "unat (length_ht t) = card (occupied (entries t))"
    and "card (occupied (entries t)) < fuel"
    and "2 * Suc (card (occupied (entries t))) \<le> unat (capacity t)"
  shows "(\<exists>t'. ht_set_insert fuel sd t k v = Done (Some k, Some t') \<and> ht_inv t' \<and>
             capacity t' = capacity t \<and> set_effect t k v t' \<and>
             (sd \<or> (\<exists>v0. holds (entries t) k v0))) \<or>
         (ht_set_insert fuel sd t k v = Done (None, Some t) \<and> \<not> sd \<and>
             (\<forall>v0. \<not> holds (entries t) k v0))"
proof (cases "sd \<or> (\<exists>v0. holds (entries t) k v0)")
  case True
  let ?es = "entries t"
  let ?l' = "if \<exists>v0. holds ?es k v0 then length_ht t else length_ht t + 1"
  have room: "card (occupied ?es) < length ?es" using assms(1,7) by simp
  have "\<exists>es'. ht_set_entry fuel sd ?es (capacity t) k v (Some (length_ht t)) =
           Done (Some k, es', Some ?l') \<and> stores ?es k v es'"
  proof (cases sd)
    case True
    from set_entry_stores [OF assms(1,2,4,6) room, of "Some (length_ht t)" sd k v] True
    show ?thesis by simp
  next
    case False
    with \<open>sd \<or> (\<exists>v0. holds (entries t) k v0)\<close> have ex: "\<exists>v0. holds ?es k v0" by simp
    then obtain i where i: "i < length ?es" "entry_key (?es ! i) = Some k"
      by (auto simp: holds_def)
    have "ht_set_entry fuel sd ?es (capacity t) k v (Some (length_ht t)) =
           Done (Some k, ?es[i := (?es ! i)\<lparr>entry_value := v\<rparr>], Some (length_ht t))"
      using assms(1,2,4,6) i by (rule set_entry_found)
    moreover have "stores ?es k v (?es[i := (?es ! i)\<lparr>entry_value := v\<rparr>])"
      using assms(4) i by (rule stores_update_value)
    ultimately show ?thesis using ex by auto
  qed
  then obtain es' where es': "ht_set_entry fuel sd ?es (capacity t) k v (Some (length_ht t)) =
           Done (Some k, es', Some ?l')" "stores ?es k v es'"
    by blast
  let ?t' = "t\<lparr>entries := es', length_ht := ?l'\<rparr>"
  have run: "ht_set_insert fuel sd t k v = Done (Some k, Some ?t')"
    using es'(1) by (simp add: ht_set_insert_def)
  from es'(2) have st: "length es' = length ?es" "chain_ok es'"
    "\<forall>k2 v2. holds es' k2 v2 \<longleftrightarrow> (if k2 = k then v2 = v else holds ?es k2 v2)"
    "card (occupied es') = (if \<exists>v0. holds ?es k v0 then card (occupied ?es)
                            else Suc (card (occupied ?es)))"
    by (simp_all add: stores_def)
  have "unat (capacity t) < 2 ^ 64" using unsigned_less [of "capacity t", where 'a = nat] by simp
  with assms(5,7) have "unat (length_ht t) + 1 < 2 ^ 64" by simp
  then have "unat (length_ht t + 1) = Suc (unat (length_ht t))"
    by (simp add: unat_word_ariths)
  with assms(5) st(4) have cnt: "unat ?l' = card (occupied es')" by simp
  have "2 * card (occupied es') \<le> unat (capacity t)" using st(4) assms(7) by simp
  with cnt st(1,2) assms(1,2,3) have "ht_inv ?t'"
    by (auto simp: ht_inv_def)
  moreover have "set_effect t k v ?t'" using st(3) by (simp add: set_effect_def)
  ultimately show ?thesis using run True by auto
next
  case False
  let ?es = "entries t"
  have room: "card (occupied ?es) < length ?es" using assms(1,7) by simp
  from False have no: "\<forall>v0. \<not> holds ?es k v0" and sd: "\<not> sd" by simp_all
  have "ht_set_entry fuel False ?es (capacity t) k v (Some (length_ht t))
          = Done (None, ?es, Some (length_ht t))"
    using assms(1,2,4,6) room no by (rule set_entry_strdup_fails)
  then have "ht_set_insert fuel sd t k v = Done (None, Some t)"
    using sd by (simp add: ht_set_insert_def)
  with no sd show ?thesis by simp
qed

lemma inv_fuel:
  assumes "ht_inv t" "unat (capacity t) \<le> fuel"
  shows "card (occupied (entries t)) < fuel"
proof -
  from assms(1) obtain j where "unat (capacity t) = 2 ^ j"
    and half: "2 * card (occupied (entries t)) \<le> unat (capacity t)"
    by (auto simp: ht_inv_def)
  then have "0 < unat (capacity t)" by simp
  with half assms(2) show ?thesis by linarith
qed

lemma set_spec:
  assumes "ht_inv t" "unat (capacity t) \<le> fuel" "v \<noteq> NULL"
  shows "(\<exists>t'. ht_set fuel debug calloc_ok sd (Some t) (Some k) v = Done (Some k, Some t') \<and>
             ht_inv t' \<and> set_effect t k v t' \<and> resized t t') \<or>
         (\<exists>t'. ht_set fuel debug calloc_ok sd (Some t) (Some k) v = Done (None, Some t') \<and>
             ht_inv t' \<and> same_content t t')"
proof -
  let ?es = "entries t"
  from assms(1) obtain j where j: "4 \<le> j" "unat (capacity t) = 2 ^ j"
    and len: "length ?es = unat (capacity t)" and ch: "chain_ok ?es"
    and half: "2 * card (occupied ?es) \<le> unat (capacity t)"
    and cnt: "unat (length_ht t) = card (occupied ?es)"
    by (auto simp: ht_inv_def)
  have cf: "card (occupied ?es) < fuel" using assms(1,2) by (rule inv_fuel)
  have "(2::nat) ^ 4 \<le> 2 ^ j" using j(1) by (intro power_increasing) simp_all
  then have big: "16 \<le> unat (capacity t)" using j(2) by simp
  have same: "same_content t t" by (simp add: same_content_def)
  show ?thesis
  proof (cases "capacity t div 2 \<le> length_ht t")
    case False
    then have "unat (length_ht t) < unat (capacity t) div 2"
      by (simp add: word_le_nat_alt unat_div)
    with cnt have room: "2 * Suc (card (occupied ?es)) \<le> unat (capacity t)" by simp
    have run: "ht_set fuel debug calloc_ok sd (Some t) (Some k) v = ht_set_insert fuel sd t k v"
      using False assms(3) by (simp add: ht_set_def)
    from set_insert_spec [OF len j(2,1) ch cnt cf room, of sd k v]
    show ?thesis
    proof
      assume "\<exists>t'. ht_set_insert fuel sd t k v = Done (Some k, Some t') \<and> ht_inv t' \<and>
             capacity t' = capacity t \<and> set_effect t k v t' \<and>
             (sd \<or> (\<exists>v0. holds (entries t) k v0))"
      then show ?thesis using run False by (auto simp: resized_def)
    next
      assume "ht_set_insert fuel sd t k v = Done (None, Some t) \<and> \<not> sd \<and>
             (\<forall>v0. \<not> holds (entries t) k v0)"
      then show ?thesis using run assms(1) same by auto
    qed
  next
    case True
    show ?thesis
    proof (cases "capacity t * 2 < capacity t \<or> \<not> calloc_ok")
      case fail: True
      then have "ht_expand fuel calloc_ok t = Done (False, t)"
        by (auto simp: ht_expand_def Let_def)
      then have "ht_set fuel debug calloc_ok sd (Some t) (Some k) v = Done (None, Some t)"
        using True assms(3) by (simp add: ht_set_def)
      then show ?thesis using assms(1) same by auto
    next
      case ok: False
      then have co: "calloc_ok" and nov: "\<not> capacity t * 2 < capacity t" by simp_all
      from expand_spec [OF assms(1) cf nov] obtain t2 where
        t2: "ht_expand fuel True t = Done (True, t2)" "ht_inv t2"
          "unat (capacity t2) = 2 * unat (capacity t)" "same_content t t2"
          "card (occupied (entries t2)) = card (occupied ?es)"
        by blast
      have run: "ht_set fuel debug calloc_ok sd (Some t) (Some k) v = ht_set_insert fuel sd t2 k v"
        using True assms(3) co t2(1) by (simp add: ht_set_def)
      from t2(2) obtain j2 where j2: "4 \<le> j2" "unat (capacity t2) = 2 ^ j2"
        and len2: "length (entries t2) = unat (capacity t2)" and ch2: "chain_ok (entries t2)"
        and cnt2: "unat (length_ht t2) = card (occupied (entries t2))"
        by (auto simp: ht_inv_def)
      have cf2: "card (occupied (entries t2)) < fuel" using cf t2(5) by simp
      have room2: "2 * Suc (card (occupied (entries t2))) \<le> unat (capacity t2)"
        using half big t2(3,5) by simp
      from set_insert_spec [OF len2 j2(2,1) ch2 cnt2 cf2 room2, of sd k v]
      show ?thesis
      proof
        assume "\<exists>t'. ht_set_insert fuel sd t2 k v = Done (Some k, Some t') \<and> ht_inv t' \<and>
             capacity t' = capacity t2 \<and> set_effect t2 k v t' \<and>
             (sd \<or> (\<exists>v0. holds (entries t2) k v0))"
        then obtain t' where t': "ht_set_insert fuel sd t2 k v = Done (Some k, Some t')"
          "ht_inv t'" "capacity t' = capacity t2" "set_effect t2 k v t'"
          by blast
        have "set_effect t k v t'"
          using t'(4) t2(4) by (simp add: set_effect_def same_content_def)
        moreover have "resized t t'" using True t'(3) t2(3) by (simp add: resized_def)
        ultimately show ?thesis using run t'(1,2) by auto
      next
        assume "ht_set_insert fuel sd t2 k v = Done (None, Some t2) \<and> \<not> sd \<and>
             (\<forall>v0. \<not> holds (entries t2) k v0)"
        then show ?thesis using run t2(2,4) by auto
      qed
    qed
  qed
qed

lemma set_null_value:
  "ht_set fuel debug calloc_ok sd (Some t) key NULL =
     (if debug then AssertFail else Done (None, Some t))"
  by (simp add: ht_set_def split: option.splits)

lemma set_null_key:
  "ht_set fuel debug calloc_ok sd (Some t) None v =
     (if debug \<and> v = NULL then AssertFail else Done (None, Some t))"
  by (simp add: ht_set_def)

lemma set_success:
  assumes "ht_inv t" "unat (capacity t) \<le> fuel"
    and "ht_set fuel debug calloc_ok sd (Some t) (Some k) v = Done (Some k', Some t')"
  shows "k' = k \<and> v \<noteq> NULL \<and> ht_inv t' \<and> set_effect t k v t' \<and> resized t t'"
proof -
  have v: "v \<noteq> NULL"
  proof
    assume "v = NULL"
    with assms(3) show False by (simp add: set_null_value split: if_splits)
  qed
  from set_spec [OF assms(1,2) v, of debug calloc_ok sd k] assms(3) v
  show ?thesis by auto
qed

lemma set_failure:
  assumes "ht_inv t" "unat (capacity t) \<le> fuel"
    and "ht_set fuel debug calloc_ok sd (Some t) key v = Done (None, Some t')"
  shows "ht_inv t' \<and> same_content t t'"
proof (cases "v = NULL \<or> key = None")
  case True
  then have "t' = t"
    using assms(3) by (auto simp: set_null_value set_null_key split: if_splits)
  with assms(1) show ?thesis by (simp add: same_content_def)
next
  case False
  then obtain k where k: "key = Some k" and v: "v \<noteq> NULL" by auto
  from set_spec [OF assms(1,2) v, of debug calloc_ok sd k] assms(3) k
  show ?thesis by auto
qed

subsection \<open>Tables built through the interface\<close>

lemma inv_create:
  assumes "ht_create malloc_ok calloc_ok = Some t"
  shows "ht_inv t" "\<not> holds (entries t) k v"
proof -
  from assms have t: "t = \<lparr>entries = calloc_entries INITIAL_CAPACITY,
                 capacity = INITIAL_CAPACITY, length_ht = 0\<rparr>"
    by (simp add: ht_create_def split: if_splits)
  show "ht_inv t"
    unfolding ht_inv_def t
    by (auto simp: chain_ok_calloc occupied_calloc length_calloc INITIAL_CAPACITY_def
          intro!: exI [of _ 4])
  show "\<not> holds (entries t) k v" unfolding t by (simp add: holds_calloc)
qed

lemma built_inv:
  "built ops t \<Longrightarrow>
     ht_inv t \<and> (\<forall>k v. holds (entries t) k v \<longleftrightarrow> map_of (rev ops) k = Some v)"
proof (induction rule: built.induct)
  case (built_create malloc_ok calloc_ok t)
  then show ?case by (simp add: inv_create)
next
  case (built_set ops t fuel debug calloc_ok strdup_ok k v k' t')
  from set_success [OF _ built_set.hyps(2,3)] built_set.IH
  have "ht_inv t'" "set_effect t k v t'" by simp_all
  with built_set.IH show ?case by (auto simp: set_effect_def)
next
  case (built_fail ops t fuel debug calloc_ok strdup_ok key v t')
  from set_failure [OF _ built_fail.hyps(2,3)] built_fail.IH
  have "ht_inv t'" "same_content t t'" by simp_all
  with built_fail.IH show ?case by (simp add: same_content_def)
qed

subsection \<open>The example tables\<close>

lemma hash_examples:
  "hash_key ''a'' = 12638187200555641996" "hash_key ''b'' = 12638190499090526629"
  "hash_key ''c'' = 12638189399578898418" "hash_key ''d'' = 12638183902020757363"
  "hash_key ''e'' = 12638182802509129152" "hash_key ''f'' = 12638186101044013785"
  "hash_key ''g'' = 12638185001532385574" "hash_key ''h'' = 12638197096160295895"
  "hash_key ''i'' = 12638195996648667684"
  by (simp_all add: hash_key_def FNV_OFFSET_def FNV_PRIME_def)

lemmas run_simps = ht_set_def ht_set_insert_def ht_set_entry_def ht_set_entry_insert_def
  ht_set_entry_loop.simps ht_expand_def ht_expand_loop.simps ht_get_def ht_get_loop.simps
  calloc_entries_def empty_entry_def INITIAL_CAPACITY_def NULL_def hash_examples Let_def

lemma built_set_all:
  "built ops t \<Longrightarrow> ht_set_all t kvs = Some t' \<Longrightarrow> built (ops @ kvs) t'"
proof (induction kvs arbitrary: ops t)
  case Nil
  then show ?case by simp
next
  case (Cons kv kvs)
  obtain k v where kv: "kv = (k, v)" by (cases kv)
  from Cons.prems(2) obtain k' t1 where
    s: "ht_set (unat (capacity t)) True True True (Some t) (Some k) v = Done (Some k', Some t1)"
    and r: "ht_set_all t1 kvs = Some t'"
    unfolding kv by (auto split: exec.splits option.splits)
  have "built (ops @ [(k, v)]) t1"
    using Cons.prems(1) _ s by (rule built_set) simp
  from Cons.IH [OF this r] show ?case by (simp add: kv)
qed

lemma built_table0: "built [] table0"
  by (rule built_create [of True True]) (simp add: ht_create_def table0_def)

lemma set_all_abc: "ht_set_all table0 [(''a'', 1), (''b'', 2), (''c'', 3)] = Some table_abc"
  by (simp add: table0_def table_abc_def run_simps word_le_nat_alt word_less_nat_alt)

lemma set_all_8:
  "ht_set_all table0 [(''a'', 1), (''b'', 2), (''c'', 3), (''d'', 4), (''e'', 5), (''f'', 6),
     (''g'', 7), (''h'', 8)] = Some table8"
  by (simp add: table0_def table8_def run_simps word_le_nat_alt word_less_nat_alt)

lemma expand_8: "ht_expand 16 True table8 = Done (True, table8_grown)"
  by (simp add: table8_def table8_grown_def run_simps word_le_nat_alt word_less_nat_alt)

lemma set_9: "ht_set 16 True True True (Some table8) (Some ''i'') 9 = Done (Some ''i'', Some table9)"
  by (simp add: table8_def table8_grown_def table9_def run_simps word_le_nat_alt word_less_nat_alt)

subsection \<open>Consequences\<close>



lemma get_after_set:
  assumes "ht_inv t" "unat (capacity t) \<le> fuel"
    and "ht_set fuel debug calloc_ok strdup_ok (Some t) (Some k) v = Done (Some k', Some t')"
    and "unat (capacity t') \<le> fuel'"
  shows "ht_get fuel' (Some t') (Some k) = Done v"
proof -
  from set_success [OF assms(1,2,3)]
  have inv: "ht_inv t'" and eff: "set_effect t k v t'" by simp_all
  from eff have "holds (entries t') k v" by (simp add: set_effect_def)
  with inv inv_fuel [OF inv assms(4)] show ?thesis by (intro get_found)
qed

lemma expand_success:
  assumes "ht_inv t" "unat (capacity t) \<le> fuel" "ht_expand fuel calloc_ok t = Done (True, t2)"
  shows "ht_inv t2 \<and> unat (capacity t2) = 2 * unat (capacity t) \<and> same_content t t2 \<and>
         card (occupied (entries t2)) = card (occupied (entries t))"
proof -
  have cf: "card (occupied (entries t)) < fuel" using assms(1,2) by (rule inv_fuel)
  from assms(3) have ok: "calloc_ok" and nov: "\<not> capacity t * 2 < capacity t"
    by (auto simp: ht_expand_def Let_def split: if_splits)
  from expand_spec [OF assms(1) cf nov] assms(3) ok show ?thesis by auto
qed

subsection \<open>The cursor\<close>

lemma next_loop_skip:
  assumes "it_index c < capacity t" "unat (it_index c) < length (entries t)"
    and "entry_key (entries t ! unat (it_index c)) = None"
  shows "ht_next_loop c t = ht_next_loop (c\<lparr>it_index := it_index c + 1\<rparr>) t"
  using assms by (subst ht_next_loop.simps) (simp add: Let_def)

lemma next_loop_found:
  assumes "it_index c < capacity t" "unat (it_index c) < length (entries t)"
    and "entry_key (entries t ! unat (it_index c)) = Some k"
  shows "ht_next_loop c t =
         Done (True, c\<lparr>it_index := it_index c + 1, it_key := Some k,
                        it_value := entry_value (entries t ! unat (it_index c))\<rparr>)"
  using assms by (subst ht_next_loop.simps) (simp add: Let_def)

lemma next_loop_end:
  assumes "\<not> it_index c < capacity t"
  shows "ht_next_loop c t = Done (False, c\<lparr>it_key := None, it_value := NULL\<rparr>)"
  using assms by (subst ht_next_loop.simps) simp

lemma iterate_from:
  assumes "length (entries t) = unat (capacity t)"
  shows "m = unat (capacity t) - unat (it_index c) \<Longrightarrow> it_table c = Some t \<Longrightarrow>
         unat (it_index c) \<le> unat (capacity t) \<Longrightarrow>
         ht_iterate c = Done (entry_pairs (drop (unat (it_index c)) (entries t)))"
proof (induction m arbitrary: c)
  case 0
  then have "\<not> it_index c < capacity t" by (simp add: word_less_nat_alt)
  then have "ht_next (Some c) = Done (False, Some (c\<lparr>it_key := None, it_value := NULL\<rparr>))"
    using 0(2) by (simp add: ht_next_def next_loop_end)
  then have "ht_iterate c = Done []" by (subst ht_iterate.simps) simp
  moreover have "drop (unat (it_index c)) (entries t) = []" using 0 assms by simp
  ultimately show ?case by (simp add: entry_pairs_def)
next
  case (Suc m)
  let ?u = "unat (it_index c)"
  let ?es = "entries t"
  from Suc.prems(1) have ul: "?u < unat (capacity t)" by simp
  then have lt: "it_index c < capacity t" by (simp add: word_less_nat_alt)
  then have s: "unat (it_index c + 1) = Suc ?u" by (rule unat_succ)
  have inr: "?u < length ?es" using ul assms by simp
  have dr: "drop ?u ?es = ?es ! ?u # drop (Suc ?u) ?es"
    using inr by (simp add: Cons_nth_drop_Suc)
  show ?case
  proof (cases "entry_key (?es ! ?u)")
    case None
    let ?c' = "c\<lparr>it_index := it_index c + 1\<rparr>"
    have "ht_next (Some c) = ht_next (Some ?c')"
      using Suc.prems(2) next_loop_skip [OF lt inr None] by (simp add: ht_next_def)
    then have "ht_iterate c = ht_iterate ?c'"
      by (subst ht_iterate.simps, subst (2) ht_iterate.simps) simp
    also have "\<dots> = Done (entry_pairs (drop (unat (it_index ?c')) ?es))"
      using Suc.prems s ul by (intro Suc.IH) simp_all
    finally show ?thesis using None s dr by (simp add: entry_pairs_def)
  next
    case (Some k)
    let ?c' = "c\<lparr>it_index := it_index c + 1, it_key := Some k,
                  it_value := entry_value (?es ! ?u)\<rparr>"
    have n: "ht_next (Some c) = Done (True, Some ?c')"
      using Suc.prems(2) next_loop_found [OF lt inr Some] by (simp add: ht_next_def)
    have "ht_iterate ?c' = Done (entry_pairs (drop (unat (it_index ?c')) ?es))"
      using Suc.prems s ul by (intro Suc.IH) simp_all
    then have "ht_iterate c = Done ((Some k, entry_value (?es ! ?u)) #
                 entry_pairs (drop (Suc ?u) ?es))"
      using n s by (subst ht_iterate.simps) simp
    then show ?thesis using Some dr by (simp add: entry_pairs_def)
  qed
qed

lemma iterate_all:
  assumes "length (entries t) = unat (capacity t)"
  shows "ht_iterate (ht_iterator (Some t)) = Done (entry_pairs (entries t))"
  using iterate_from [OF assms, of "unat (capacity t)" "ht_iterator (Some t)"]
  by (simp add: ht_iterator_def)

lemma distinct_filter_nth:
  "(\<And>i j. i < length ys \<Longrightarrow> j < length ys \<Longrightarrow> i \<noteq> j \<Longrightarrow> P (ys ! i) \<Longrightarrow> P (ys ! j)
      \<Longrightarrow> ys ! i \<noteq> ys ! j) \<Longrightarrow> distinct (filter P ys)"
proof (induction ys)
  case Nil
  then show ?case by simp
next
  case (Cons y ys)
  have "distinct (filter P ys)"
  proof (rule Cons.IH)
    fix i j assume "i < length ys" "j < length ys" "i \<noteq> j" "P (ys ! i)" "P (ys ! j)"
    then show "ys ! i \<noteq> ys ! j"
      using Cons.prems [of "Suc i" "Suc j"] by simp
  qed
  moreover have "y \<notin> set (filter P ys)" if "P y"
  proof
    assume "y \<in> set (filter P ys)"
    then obtain j where j: "j < length ys" "ys ! j = y" by (auto simp: in_set_conv_nth)
    with that Cons.prems [of 0 "Suc j"] show False by simp
  qed
  ultimately show ?case by simp
qed

lemma pairs_member:
  "(Some k, v) \<in> set (entry_pairs es) \<longleftrightarrow> holds es k v"
proof -
  have "(Some k, v) \<in> set (entry_pairs es) \<longleftrightarrow>
        (\<exists>e\<in>set es. entry_key e = Some k \<and> entry_value e = v)"
    by (force simp: entry_pairs_def)
  also have "\<dots> \<longleftrightarrow> holds es k v"
    unfolding holds_def by (metis in_set_conv_nth)
  finally show ?thesis .
qed

lemma pairs_some: "kv \<in> set (entry_pairs es) \<Longrightarrow> fst kv \<noteq> None"
  by (auto simp: entry_pairs_def)

lemma pairs_distinct:
  assumes "chain_ok es"
  shows "distinct (map fst (entry_pairs es))"
proof -
  have "map fst (entry_pairs es) = filter (\<lambda>x. x \<noteq> None) (map entry_key es)"
    by (simp add: entry_pairs_def filter_map comp_def)
  moreover have "distinct (filter (\<lambda>x. x \<noteq> None) (map entry_key es))"
  proof (rule distinct_filter_nth)
    fix i j
    assume a: "i < length (map entry_key es)" "j < length (map entry_key es)" "i \<noteq> j"
      "map entry_key es ! i \<noteq> None" "map entry_key es ! j \<noteq> None"
    show "map entry_key es ! i \<noteq> map entry_key es ! j"
    proof
      assume "map entry_key es ! i = map entry_key es ! j"
      with a obtain k where "entry_key (es ! i) = Some k" "entry_key (es ! j) = Some k" by auto
      with assms a(1,2) have "i = j" by (intro key_unique [of es i j k]) simp_all
      with a(3) show False by simp
    qed
  qed
  ultimately show ?thesis by simp
qed

subsection \<open>Totality\<close>





subsection \<open>The turns of the loops of growth\<close>












lemma next_loop_none:
  assumes "unat (capacity t) \<le> length (entries t)"
  shows "m = unat (capacity t) - unat (it_index c) \<Longrightarrow>
         (\<forall>i. unat (it_index c) \<le> i \<and> i < unat (capacity t) \<longrightarrow>
              entry_key (entries t ! i) = None) \<Longrightarrow>
         \<exists>c'. ht_next_loop c t = Done (False, c')"
proof (induction m arbitrary: c)
  case 0
  then have "\<not> it_index c < capacity t" by (simp add: word_less_nat_alt)
  then show ?case by (simp add: next_loop_end)
next
  case (Suc m)
  let ?u = "unat (it_index c)"
  let ?c' = "c\<lparr>it_index := it_index c + 1\<rparr>"
  from Suc.prems(1) have ul: "?u < unat (capacity t)" by simp
  then have lt: "it_index c < capacity t" by (simp add: word_less_nat_alt)
  then have s: "unat (it_index c + 1) = Suc ?u" by (rule unat_succ)
  have inr: "?u < length (entries t)" using ul assms by simp
  have none: "entry_key (entries t ! ?u) = None" using Suc.prems(2) ul by simp
  have m': "m = unat (capacity t) - unat (it_index ?c')" using Suc.prems(1) s by simp
  have rest: "\<forall>i. unat (it_index ?c') \<le> i \<and> i < unat (capacity t) \<longrightarrow>
              entry_key (entries t ! i) = None"
    using Suc.prems(2) s by simp
  from Suc.IH [OF m' rest] next_loop_skip [OF lt inr none] show ?case by simp
qed

section \<open>Claims\<close>

subsection \<open>Round trip\<close>

text \<open>
  Claim C1. For every table built through the interface, every key and every value: if
  \<open>ht_set\<close> succeeds (returns the stored key, which it can only do for a non-null
  value), then \<open>ht_get\<close> on the resulting table with that key returns the value. The
  fuel of each call is at least the capacity of the table it is called on.
\<close>

theorem set_get_round_trip:
  assumes "built ops t" "unat (capacity t) \<le> fuel"
    and "ht_set fuel debug calloc_ok strdup_ok (Some t) (Some k) v = Done (Some k', Some t')"
    and "unat (capacity t') \<le> fuel'"
  shows "ht_get fuel' (Some t') (Some k) = Done v"
proof -
  have "ht_inv t" using assms(1) by (simp add: built_inv)
  then show ?thesis using assms(2,3,4) by (rule get_after_set)
qed

theorem set_get_round_trip_witness:
  "built [] table0 \<and> unat (capacity table0) \<le> 16 \<and>
   ht_set 16 True True True (Some table0) (Some ''a'') 1 = Done (Some ''a'', Some table_a) \<and>
   unat (capacity table_a) \<le> 16 \<and>
   ht_get 16 (Some table_a) (Some ''a'') = Done 1"
proof -
  have c0: "unat (capacity table0) \<le> 16" by (simp add: table0_def INITIAL_CAPACITY_def)
  have s: "ht_set 16 True True True (Some table0) (Some ''a'') 1 = Done (Some ''a'', Some table_a)"
    by (simp add: table0_def table_a_def run_simps word_le_nat_alt word_less_nat_alt)
  have c1: "unat (capacity table_a) \<le> 16" by (simp add: table_a_def)
  from set_get_round_trip [OF built_table0 c0 s c1] built_table0 c0 s c1
  show ?thesis by simp
qed

subsection \<open>Growth\<close>

text \<open>
  Claim C2. A successful \<open>ht_expand\<close> on a table built through the interface puts
  into the new array exactly the key/value pairs of the old one, leaves the length as it
  is, and the number of occupied slots of the new array equals that of the old one; the
  capacity is doubled and every key set before is still found with its value. When a
  successful \<open>ht_set\<close> of a key \<open>k\<close> grows the table, every other key set before still
  maps, through \<open>ht_get\<close>, to the value last set for it.
\<close>

theorem growth_keeps_entries:
  assumes "built ops t" "unat (capacity t) \<le> fuel"
  shows "(ht_expand fuel calloc_ok t = Done (True, t2) \<longrightarrow>
            (\<forall>k v. holds (entries t2) k v \<longleftrightarrow> holds (entries t) k v) \<and>
            length_ht t2 = length_ht t \<and>
            card (occupied (entries t2)) = card (occupied (entries t)) \<and>
            unat (capacity t2) = 2 * unat (capacity t) \<and>
            (\<forall>k v. map_of (rev ops) k = Some v \<longrightarrow> ht_get fuel (Some t2) (Some k) = Done v)) \<and>
         (capacity t div 2 \<le> length_ht t \<and>
          ht_set fuel debug calloc_ok strdup_ok (Some t) (Some k) v = Done (Some k', Some t') \<and>
          unat (capacity t') \<le> fuel' \<longrightarrow>
            unat (capacity t') = 2 * unat (capacity t) \<and>
            (\<forall>k2 v2. map_of (rev ops) k2 = Some v2 \<and> k2 \<noteq> k \<longrightarrow>
               ht_get fuel' (Some t') (Some k2) = Done v2))"
proof (intro conjI impI)
  have inv: "ht_inv t" and content: "\<forall>k v. holds (entries t) k v \<longleftrightarrow> map_of (rev ops) k = Some v"
    using assms(1) by (simp_all add: built_inv)
  {
    assume e: "ht_expand fuel calloc_ok t = Done (True, t2)"
    from expand_success [OF inv assms(2) e]
    have inv2: "ht_inv t2" and cap2: "unat (capacity t2) = 2 * unat (capacity t)"
      and same: "same_content t t2"
      and card2: "card (occupied (entries t2)) = card (occupied (entries t))"
      by simp_all
    show "\<forall>k v. holds (entries t2) k v \<longleftrightarrow> holds (entries t) k v"
      using same by (simp add: same_content_def)
    show "length_ht t2 = length_ht t" using same by (simp add: same_content_def)
    show "card (occupied (entries t2)) = card (occupied (entries t))" by (rule card2)
    show "unat (capacity t2) = 2 * unat (capacity t)" by (rule cap2)
    have cf: "card (occupied (entries t2)) < fuel"
      using inv_fuel [OF inv assms(2)] card2 by simp
    show "\<forall>k v. map_of (rev ops) k = Some v \<longrightarrow> ht_get fuel (Some t2) (Some k) = Done v"
    proof (intro allI impI)
      fix k v assume "map_of (rev ops) k = Some v"
      with content same have "holds (entries t2) k v" by (simp add: same_content_def)
      with inv2 cf show "ht_get fuel (Some t2) (Some k) = Done v" by (intro get_found)
    qed
  }
  {
    assume a: "capacity t div 2 \<le> length_ht t \<and>
          ht_set fuel debug calloc_ok strdup_ok (Some t) (Some k) v = Done (Some k', Some t') \<and>
          unat (capacity t') \<le> fuel'"
    from a have s: "ht_set fuel debug calloc_ok strdup_ok (Some t) (Some k) v
                      = Done (Some k', Some t')" by simp
    from set_success [OF inv assms(2) s]
    have inv': "ht_inv t'" and eff: "set_effect t k v t'" and res: "resized t t'" by simp_all
    show "unat (capacity t') = 2 * unat (capacity t)" using res a by (simp add: resized_def)
    show "\<forall>k2 v2. map_of (rev ops) k2 = Some v2 \<and> k2 \<noteq> k \<longrightarrow>
               ht_get fuel' (Some t') (Some k2) = Done v2"
    proof (intro allI impI)
      fix k2 v2 assume "map_of (rev ops) k2 = Some v2 \<and> k2 \<noteq> k"
      with content eff have "holds (entries t') k2 v2" by (simp add: set_effect_def)
      with inv' inv_fuel [OF inv'] a show "ht_get fuel' (Some t') (Some k2) = Done v2"
        by (intro get_found) simp_all
    qed
  }
qed

theorem growth_keeps_entries_witness:
  "built [(''a'', 1), (''b'', 2), (''c'', 3), (''d'', 4), (''e'', 5), (''f'', 6),
          (''g'', 7), (''h'', 8)] table8 \<and>
   unat (capacity table8) \<le> 16 \<and>
   ht_expand 16 True table8 = Done (True, table8_grown) \<and>
   length_ht table8_grown = length_ht table8 \<and>
   card (occupied (entries table8_grown)) = card (occupied (entries table8)) \<and>
   ht_get 16 (Some table8_grown) (Some ''c'') = Done 3 \<and>
   capacity table8 div 2 \<le> length_ht table8 \<and>
   ht_set 16 True True True (Some table8) (Some ''i'') 9 = Done (Some ''i'', Some table9) \<and>
   unat (capacity table9) \<le> 32 \<and>
   unat (capacity table9) = 2 * unat (capacity table8) \<and>
   ht_get 32 (Some table9) (Some ''c'') = Done 3"
proof -
  have b: "built ([] @ [(''a'', 1), (''b'', 2), (''c'', 3), (''d'', 4), (''e'', 5), (''f'', 6),
          (''g'', 7), (''h'', 8)]) table8"
    using built_table0 set_all_8 by (rule built_set_all)
  have c: "unat (capacity table8) \<le> 16" by (simp add: table8_def)
  have g: "capacity table8 div 2 \<le> length_ht table8" by (simp add: table8_def)
  have c9: "unat (capacity table9) \<le> 32" by (simp add: table9_def table8_grown_def)
  from growth_keeps_entries [OF b c, where calloc_ok = True and ?t2.0 = table8_grown
      and debug = True and strdup_ok = True and k = "''i''" and v = 9 and k' = "''i''"
      and t' = table9 and fuel' = 32]
    b c g c9 expand_8 set_9
  show ?thesis by simp
qed

subsection \<open>Load factor\<close>

text \<open>
  Claim C3. Immediately after every successful \<open>ht_set\<close> on a table built through the
  interface, twice the length is at most the capacity (as natural numbers, and as the
  word comparison \<open>length \<le> capacity / 2\<close>). The table grows before the insertion
  exactly when \<open>length \<ge> capacity / 2\<close> held on entry: then the capacity is doubled,
  otherwise it is unchanged.
\<close>

theorem load_factor_after_set:
  assumes "built ops t" "unat (capacity t) \<le> fuel"
    and "ht_set fuel debug calloc_ok strdup_ok (Some t) (Some k) v = Done (Some k', Some t')"
  shows "2 * unat (length_ht t') \<le> unat (capacity t') \<and>
         length_ht t' \<le> capacity t' div 2 \<and>
         (if capacity t div 2 \<le> length_ht t
          then unat (capacity t') = 2 * unat (capacity t) else capacity t' = capacity t)"
proof -
  have "ht_inv t" using assms(1) by (simp add: built_inv)
  from set_success [OF this assms(2,3)]
  have inv: "ht_inv t'" and res: "resized t t'" by simp_all
  from inv have half: "2 * unat (length_ht t') \<le> unat (capacity t')"
    by (simp add: ht_inv_def)
  then have "unat (length_ht t') \<le> unat (capacity t') div 2" by simp
  then have "length_ht t' \<le> capacity t' div 2"
    by (simp add: word_le_nat_alt unat_div)
  with half res show ?thesis by (simp add: resized_def)
qed

theorem load_factor_after_set_witness:
  "built [(''a'', 1), (''b'', 2), (''c'', 3), (''d'', 4), (''e'', 5), (''f'', 6),
          (''g'', 7), (''h'', 8)] table8 \<and>
   unat (capacity table8) \<le> 16 \<and>
   ht_set 16 True True True (Some table8) (Some ''i'') 9 = Done (Some ''i'', Some table9) \<and>
   2 * unat (length_ht table9) \<le> unat (capacity table9) \<and>
   length_ht table9 \<le> capacity table9 div 2 \<and>
   unat (capacity table9) = 2 * unat (capacity table8)"
proof -
  have b: "built ([] @ [(''a'', 1), (''b'', 2), (''c'', 3), (''d'', 4), (''e'', 5), (''f'', 6),
          (''g'', 7), (''h'', 8)]) table8"
    using built_table0 set_all_8 by (rule built_set_all)
  have c: "unat (capacity table8) \<le> 16" by (simp add: table8_def)
  have g: "capacity table8 div 2 \<le> length_ht table8" by (simp add: table8_def)
  from load_factor_after_set [OF b c set_9] b c set_9 g
  show ?thesis by simp
qed

subsection \<open>Update\<close>



subsection \<open>Growth failure\<close>

text \<open>
  Claim C5. If growth fails during a set, because doubling the capacity wraps around or
  because the new entry array cannot be allocated, then \<open>ht_expand\<close> returns false
  with the table as it was, and \<open>ht_set\<close> returns NULL with the table's entries,
  capacity and length exactly as they were before the call.
\<close>

theorem ht_set_growth_failure:
  assumes "v \<noteq> NULL" "capacity t div 2 \<le> length_ht t"
    and "capacity t * 2 < capacity t \<or> \<not> calloc_ok"
  shows "ht_expand fuel calloc_ok t = Done (False, t) \<and>
         ht_set fuel debug calloc_ok strdup_ok (Some t) (Some k) v = Done (None, Some t)"
proof -
  have "ht_expand fuel calloc_ok t = Done (False, t)"
    using assms(3) by (auto simp: ht_expand_def Let_def)
  then show ?thesis
    using assms(1,2) by (simp add: ht_set_def)
qed

theorem ht_set_growth_failure_witness:
  "9 \<noteq> NULL \<and> capacity table8 div 2 \<le> length_ht table8 \<and>
   ht_expand 16 False table8 = Done (False, table8) \<and>
   ht_set 16 True False True (Some table8) (Some ''i'') 9 = Done (None, Some table8)"
proof -
  have v: "9 \<noteq> NULL" by (simp add: NULL_def)
  have g: "capacity table8 div 2 \<le> length_ht table8" by (simp add: table8_def)
  from ht_set_growth_failure [OF v g, where calloc_ok = False and fuel = 16 and debug = True
      and strdup_ok = True and k = "''i''"] v g
  show ?thesis by simp
qed

subsection \<open>Null arguments\<close>

text \<open>
  Claim C6, as amended. \<open>ht_get\<close> with a null table or a null key returns NULL, and
  \<open>ht_length\<close> of a null table is 0. \<open>ht_set\<close> with a null table, a null key or a null
  value returns NULL and leaves the table as it was, unless the value is null and
  assertions are compiled in: then the assertion \<open>value != NULL\<close> fails and the call
  does not return.
\<close>

theorem null_arguments:
  "ht_get fuel None key = Done NULL \<and>
   ht_get fuel table None = Done NULL \<and>
   ht_length None = 0 \<and>
   ((table = None \<or> key = None \<or> v = NULL) \<and> \<not> (debug \<and> v = NULL) \<longrightarrow>
      ht_set fuel debug calloc_ok strdup_ok table key v = Done (None, table)) \<and>
   (debug \<longrightarrow> ht_set fuel debug calloc_ok strdup_ok table key NULL = AssertFail)"
  by (auto simp: ht_get_def ht_length_def ht_set_def split: option.splits)

theorem null_arguments_witness:
  "ht_set 16 False True True (ht_create True True) (Some ''a'') NULL
     = Done (None, ht_create True True) \<and>
   ht_set 16 True True True (ht_create True True) None 1 = Done (None, ht_create True True) \<and>
   ht_set 16 True True True (ht_create True True) (Some ''a'') NULL = AssertFail"
  using null_arguments [where fuel = 16 and table = "ht_create True True"
      and key = "Some ''a''" and v = NULL and debug = False and calloc_ok = True
      and strdup_ok = True]
    null_arguments [where fuel = 16 and table = "ht_create True True"
      and key = None and v = 1 and debug = True and calloc_ok = True and strdup_ok = True]
    null_arguments [where fuel = 16 and table = "ht_create True True"
      and key = "Some ''a''" and v = NULL and debug = True and calloc_ok = True
      and strdup_ok = True]
  by (simp add: NULL_def)

text \<open>
  Claim C6 as the specification states it, that \<open>ht_set\<close> with a null value is a
  no-op that returns its failure signal, fails in a build with assertions: on a fresh
  table the call ends in the failed assertion and returns nothing.
\<close>

theorem null_value_assertion_counterexample:
  "ht_set 16 True True True (ht_create True True) (Some ''a'') NULL
     \<noteq> Done (None, ht_create True True)"
  by (simp add: ht_set_def)

subsection \<open>Iteration\<close>

text \<open>
  Claim C7. Iterating a table built through the interface by the successful sets \<open>ops\<close>
  (in the order they were made; the table is not changed during the iteration) yields,
  before \<open>ht_next\<close> returns false, exactly as many pairs as \<open>ops\<close> has distinct keys,
  which is the number of sets when their keys are pairwise distinct. The keys yielded are
  pairwise distinct, every key set is yielded, and each pair carries the value most
  recently set for its key.
\<close>

theorem iteration_complete:
  assumes "built ops t"
  shows "\<exists>kvs. ht_iterate (ht_iterator (Some t)) = Done kvs \<and>
           length kvs = card (fst ` set ops) \<and>
           (distinct (map fst ops) \<longrightarrow> length kvs = length ops) \<and>
           distinct (map fst kvs) \<and>
           (\<forall>kv\<in>set kvs. \<exists>k. fst kv = Some k \<and> map_of (rev ops) k = Some (snd kv)) \<and>
           (\<forall>k v. map_of (rev ops) k = Some v \<longrightarrow> (Some k, v) \<in> set kvs)"
proof -
  let ?es = "entries t"
  let ?kvs = "entry_pairs ?es"
  have inv: "ht_inv t" and content: "\<And>k v. holds ?es k v \<longleftrightarrow> map_of (rev ops) k = Some v"
    using assms by (simp_all add: built_inv)
  from inv have len: "length ?es = unat (capacity t)" and ch: "chain_ok ?es"
    by (simp_all add: ht_inv_def)
  have run: "ht_iterate (ht_iterator (Some t)) = Done ?kvs" using len by (rule iterate_all)
  have dist: "distinct (map fst ?kvs)" using ch by (rule pairs_distinct)
  have mem: "\<exists>k. fst kv = Some k \<and> map_of (rev ops) k = Some (snd kv)" if "kv \<in> set ?kvs" for kv
  proof -
    from pairs_some [OF that] obtain k where k: "fst kv = Some k" by auto
    then have "(Some k, snd kv) \<in> set ?kvs" using that by (metis prod.collapse)
    then have "map_of (rev ops) k = Some (snd kv)" by (simp add: pairs_member content)
    with k show ?thesis by blast
  qed
  have all: "(Some k, v) \<in> set ?kvs" if "map_of (rev ops) k = Some v" for k v
    using that by (simp add: pairs_member content)
  have "set (map fst ?kvs) = Some ` fst ` set ops"
  proof (intro set_eqI iffI)
    fix x assume "x \<in> set (map fst ?kvs)"
    then obtain kv where kv: "kv \<in> set ?kvs" "x = fst kv" by auto
    from mem [OF kv(1)] obtain k where k: "fst kv = Some k" "map_of (rev ops) k = Some (snd kv)"
      by blast
    from k(2) have "(k, snd kv) \<in> set (rev ops)" by (rule map_of_SomeD)
    then have "k \<in> fst ` set ops" by force
    with kv(2) k(1) show "x \<in> Some ` fst ` set ops" by simp
  next
    fix x assume "x \<in> Some ` fst ` set ops"
    then obtain k where k: "x = Some k" "k \<in> fst ` set ops" by auto
    then have "k \<in> dom (map_of (rev ops))" by (simp add: dom_map_of_conv_image_fst)
    then obtain v where "map_of (rev ops) k = Some v" by auto
    from all [OF this] k(1) show "x \<in> set (map fst ?kvs)" by force
  qed
  then have "card (set (map fst ?kvs)) = card (fst ` set ops)"
    by (simp add: card_image)
  moreover have "card (set (map fst ?kvs)) = length (map fst ?kvs)"
    using dist by (rule distinct_card)
  ultimately have n: "length ?kvs = card (fst ` set ops)"
    by simp
  have "length ?kvs = length ops" if "distinct (map fst ops)"
  proof -
    from that have "card (set (map fst ops)) = length (map fst ops)" by (rule distinct_card)
    with n show ?thesis by simp
  qed
  with run n dist mem all show ?thesis by blast
qed

theorem iteration_complete_witness:
  "built [(''a'', 1), (''b'', 2), (''c'', 3)] table_abc \<and>
   ht_iterate (ht_iterator (Some table_abc))
     = Done [(Some ''c'', 3), (Some ''b'', 2), (Some ''a'', 1)] \<and>
   card (fst ` set [(''a'', 1 :: ptr), (''b'', 2), (''c'', 3)]) = 3"
proof -
  have b: "built ([] @ [(''a'', 1), (''b'', 2), (''c'', 3)]) table_abc"
    using built_table0 set_all_abc by (rule built_set_all)
  have run: "ht_iterate (ht_iterator (Some table_abc))
               = Done [(Some ''c'', 3), (Some ''b'', 2), (Some ''a'', 1)]"
    by (simp add: ht_iterate.simps ht_next_def ht_iterator_def ht_next_loop.simps table_abc_def
          calloc_entries_def empty_entry_def NULL_def Let_def word_less_nat_alt)
  from iteration_complete [OF b] run b show ?thesis by auto
qed

subsection \<open>The cursor\<close>

lemma ht_next_loop_exhausted:
  "ht_next_loop c t = Done (b, c') \<Longrightarrow> \<not> b \<Longrightarrow>
     \<not> it_index c' < capacity t \<and> it_key c' = None \<and> it_value c' = NULL \<and>
     it_table c' = it_table c"
proof (induction c t rule: ht_next_loop.induct)
  case (1 it table)
  show ?case
  proof (cases "it_index it < capacity table")
    case True
    with "1.prems" "1.IH" show ?thesis
      by (subst (asm) ht_next_loop.simps) (auto simp: Let_def split: if_splits option.splits)
  next
    case False
    with "1.prems" show ?thesis
      by (subst (asm) ht_next_loop.simps) auto
  qed
qed

text \<open>
  Claim C8. When the scan of \<open>ht_next\<close> reaches the end of the entry array with
  nothing found, that is, when no slot from the cursor's index up to the capacity holds a
  key, \<open>ht_next\<close> returns false with the cursor's key and value cleared, whatever the
  cursor showed before; and every further call on that cursor returns false again and
  leaves the cursor as it is. The same holds after any false return of \<open>ht_next\<close> on a
  cursor with a table: no call leaves the exhausted state.
\<close>

theorem ht_next_exhausted_terminal:
  assumes "it_table c = Some t"
  shows "(unat (capacity t) \<le> length (entries t) \<and>
          (\<forall>i. unat (it_index c) \<le> i \<and> i < unat (capacity t) \<longrightarrow>
               entry_key (entries t ! i) = None) \<longrightarrow>
            (\<exists>c'. ht_next (Some c) = Done (False, Some c') \<and>
                  it_key c' = None \<and> it_value c' = NULL \<and>
                  (\<forall>n. ht_next_again n c' = Done (False, Some c')))) \<and>
         (\<forall>r. ht_next (Some c) = Done (False, r) \<longrightarrow>
            (\<exists>c'. r = Some c' \<and> it_key c' = None \<and> it_value c' = NULL \<and>
                  ht_next (Some c') = Done (False, Some c') \<and>
                  (\<forall>n. ht_next_again n c' = Done (False, Some c'))))"
proof -
  have terminal: "it_key d = None \<and> it_value d = NULL \<and>
                  ht_next (Some d) = Done (False, Some d) \<and>
                  (\<forall>n. ht_next_again n d = Done (False, Some d))"
    if d: "ht_next_loop c t = Done (False, d)" for d
  proof -
    from ht_next_loop_exhausted [OF d] assms
    have e: "\<not> it_index d < capacity t" "it_key d = None" "it_value d = NULL"
      "it_table d = Some t"
      by simp_all
    have "ht_next_loop d t = Done (False, d)"
      using e by (subst ht_next_loop.simps) simp
    with e have again: "ht_next (Some d) = Done (False, Some d)" by (simp add: ht_next_def)
    have "ht_next_again n d = Done (False, Some d)" for n
      by (induction n) (simp_all add: again)
    with e again show ?thesis by simp
  qed
  have reach: "\<exists>c'. ht_next (Some c) = Done (False, Some c') \<and>
                  it_key c' = None \<and> it_value c' = NULL \<and>
                  (\<forall>n. ht_next_again n c' = Done (False, Some c'))"
    if "unat (capacity t) \<le> length (entries t)"
      and "\<forall>i. unat (it_index c) \<le> i \<and> i < unat (capacity t) \<longrightarrow>
               entry_key (entries t ! i) = None"
  proof -
    from next_loop_none [OF that(1) refl that(2)] obtain d where
      d: "ht_next_loop c t = Done (False, d)" by blast
    then have "ht_next (Some c) = Done (False, Some d)" using assms by (simp add: ht_next_def)
    with terminal [OF d] show ?thesis by blast
  qed
  have stay: "\<exists>c'. r = Some c' \<and> it_key c' = None \<and> it_value c' = NULL \<and>
                  ht_next (Some c') = Done (False, Some c') \<and>
                  (\<forall>n. ht_next_again n c' = Done (False, Some c'))"
    if "ht_next (Some c) = Done (False, r)" for r
  proof -
    from that assms obtain d where d: "ht_next_loop c t = Done (False, d)" "r = Some d"
      by (auto simp: ht_next_def split: exec.splits)
    with terminal [OF d(1)] show ?thesis by blast
  qed
  from reach stay show ?thesis by blast
qed

theorem ht_next_exhausted_terminal_witness:
  "ht_next_again (Suc (Suc 0)) (ht_iterator (Some table_abc))
     = Done (True, Some \<lparr>it_key = Some ''a'', it_value = 1,
                          it_table = Some table_abc, it_index = 13\<rparr>) \<and>
   unat (capacity table_abc) \<le> length (entries table_abc) \<and>
   unat (13 :: size_t) = 13 \<and> unat (capacity table_abc) = 16 \<and>
   entry_key (entries table_abc ! 13) = None \<and>
   entry_key (entries table_abc ! 14) = None \<and>
   entry_key (entries table_abc ! 15) = None \<and>
   ht_next (Some \<lparr>it_key = Some ''a'', it_value = 1, it_table = Some table_abc, it_index = 13\<rparr>)
     = Done (False, Some \<lparr>it_key = None, it_value = NULL,
                           it_table = Some table_abc, it_index = 16\<rparr>) \<and>
   ht_next_again 5 \<lparr>it_key = None, it_value = NULL, it_table = Some table_abc, it_index = 16\<rparr>
     = Done (False, Some \<lparr>it_key = None, it_value = NULL,
                           it_table = Some table_abc, it_index = 16\<rparr>)"
proof -
  let ?c = "\<lparr>it_key = Some ''a'', it_value = 1, it_table = Some table_abc, it_index = 13\<rparr>"
  let ?d = "\<lparr>it_key = None, it_value = NULL, it_table = Some table_abc, it_index = 16\<rparr>"
  have shown: "ht_next_again (Suc (Suc 0)) (ht_iterator (Some table_abc)) = Done (True, Some ?c)"
    by (simp add: ht_next_def ht_iterator_def ht_next_loop.simps table_abc_def
          calloc_entries_def empty_entry_def NULL_def Let_def word_less_nat_alt)
  have tbl: "it_table ?c = Some table_abc" by simp
  have len: "unat (capacity table_abc) \<le> length (entries table_abc)"
    by (simp add: table_abc_def calloc_entries_def)
  have none: "\<forall>i. unat (13 :: size_t) \<le> i \<and> i < unat (capacity table_abc) \<longrightarrow>
        entry_key (entries table_abc ! i) = None"
  proof (intro allI impI)
    fix i assume "unat (13 :: size_t) \<le> i \<and> i < unat (capacity table_abc)"
    then have "i = 13 \<or> i = 14 \<or> i = 15" by (auto simp: table_abc_def)
    then show "entry_key (entries table_abc ! i) = None"
      by (auto simp: table_abc_def calloc_entries_def empty_entry_def)
  qed
  have run: "ht_next (Some ?c) = Done (False, Some ?d)"
    by (simp add: ht_next_def ht_next_loop.simps table_abc_def
          calloc_entries_def empty_entry_def NULL_def Let_def word_less_nat_alt)
  have slots: "unat (13 :: size_t) = 13" "unat (capacity table_abc) = 16"
    "entry_key (entries table_abc ! 13) = None" "entry_key (entries table_abc ! 14) = None"
    "entry_key (entries table_abc ! 15) = None"
    by (simp_all add: table_abc_def calloc_entries_def empty_entry_def)
  from ht_next_exhausted_terminal [OF tbl] len none run shown slots
  show ?thesis by auto
qed

text \<open>
  Claim C10. \<open>ht_next\<close> on a null cursor, and on a cursor whose table is null (such as
  the one \<open>ht_iterator\<close> makes for a null table), returns false: it ends normally, the
  cursor is left as it was, and no entry array is read.
\<close>

theorem ht_next_null:
  "ht_next None = Done (False, None) \<and>
   (it_table c = None \<longrightarrow> ht_next (Some c) = Done (False, Some c)) \<and>
   ht_next (Some (ht_iterator None)) = Done (False, Some (ht_iterator None))"
  by (simp add: ht_next_def ht_iterator_def)

theorem ht_next_null_witness:
  "ht_next (Some \<lparr>it_key = Some ''a'', it_value = 1, it_table = None, it_index = 3\<rparr>)
     = Done (False, Some \<lparr>it_key = Some ''a'', it_value = 1, it_table = None, it_index = 3\<rparr>)"
  using ht_next_null [of "\<lparr>it_key = Some ''a'', it_value = 1, it_table = None, it_index = 3\<rparr>"]
  by simp

subsection \<open>Termination\<close>





end
